theory Spec2Isabelle
  imports Main
begin

section \<open>JavaScript strings\<close>

text \<open>
  A JavaScript string is a sequence of UTF-16 code units. A code unit is modelled as a
  natural number (below 65536 for every real string; no function here relies on that
  bound), a string as a list of code units. \<open>S\<close> embeds the ASCII literals of the source.
\<close>

type_synonym ustring = "nat list"

definition S :: "string \<Rightarrow> ustring" where
  "S s = map of_char s"

text \<open>
  The ECMAScript \<open>WhiteSpace\<close> and \<open>LineTerminator\<close> code units: what
  \<open>String.prototype.trim\<close> strips and what the class \<open>\s\<close> matches.
\<close>

definition isWhiteSpace :: "nat \<Rightarrow> bool" where
  "isWhiteSpace c = (c = 9 \<or> c = 10 \<or> c = 11 \<or> c = 12 \<or> c = 13 \<or> c = 32 \<or> c = 160
     \<or> c = 5760 \<or> (8192 \<le> c \<and> c \<le> 8202) \<or> c = 8232 \<or> c = 8233 \<or> c = 8239
     \<or> c = 8287 \<or> c = 12288 \<or> c = 65279)"

definition isLineTerminator :: "nat \<Rightarrow> bool" where
  "isLineTerminator c = (c = 10 \<or> c = 13 \<or> c = 8232 \<or> c = 8233)"

definition trim :: "ustring \<Rightarrow> ustring" where
  "trim s = rev (dropWhile isWhiteSpace (rev (dropWhile isWhiteSpace s)))"

text \<open>\<open>s.slice(a, b)\<close> for indices that are not negative; empty when \<open>b \<le> a\<close>.\<close>

definition slice :: "ustring \<Rightarrow> nat \<Rightarrow> nat \<Rightarrow> ustring" where
  "slice s a b = take (b - a) (drop a s)"

definition startsWith :: "ustring \<Rightarrow> ustring \<Rightarrow> bool" where
  "startsWith s p = (take (length p) s = p)"

definition endsWith :: "ustring \<Rightarrow> ustring \<Rightarrow> bool" where
  "endsWith s p = (length p \<le> length s \<and> drop (length s - length p) s = p)"

fun str_includes :: "ustring \<Rightarrow> ustring \<Rightarrow> bool" where
  "str_includes [] p = (p = [])"
| "str_includes (c # cs) p = (startsWith (c # cs) p \<or> str_includes cs p)"

text \<open>\<open>a || b\<close> on values that are a string or \<open>undefined\<close>: the empty string is falsy.\<close>

definition js_or :: "ustring option \<Rightarrow> ustring option \<Rightarrow> ustring option" where
  "js_or a b = (case a of None \<Rightarrow> b | Some s \<Rightarrow> if s = [] then b else Some s)"

definition truthy :: "ustring option \<Rightarrow> bool" where
  "truthy a = (case a of None \<Rightarrow> False | Some s \<Rightarrow> s \<noteq> [])"

section \<open>Regular expressions\<close>

text \<open>
  The patterns of the source use literals, classes, the dot, alternation, greedy and lazy
  quantifiers, capture groups, a backreference, a negative lookahead and the end anchor.
  The matcher below follows the backtracking semantics of ECMAScript (ECMA-262, 22.2.2):
  a pattern compiles to a function of a continuation and a match state; the first
  alternative whose continuation succeeds wins.
\<close>

datatype citem = CChar nat | CRange nat nat | CSpace | CNonSpace

datatype regex =
    Chr nat
  | Class bool "citem list"
  | Dot
  | Eps
  | EndAnchor
  | Seq regex regex
  | Alt regex regex
  | Rep nat "nat option" bool regex
  | Group nat regex
  | Backref nat
  | NegLook regex

text \<open>
  \<open>Class neg items\<close> is \<open>[...]\<close>, or \<open>[^...]\<close> when \<open>neg\<close>; \<open>Rep mn mx greedy r\<close> is
  \<open>r{mn,mx}\<close> (\<open>mx = None\<close>: no upper bound), lazy when \<open>greedy\<close> is false; \<open>Group n r\<close> is
  the capture group number \<open>n\<close>; \<open>NegLook r\<close> is \<open>(?!r)\<close>; \<open>EndAnchor\<close> is \<open>$\<close> without
  the multiline flag.

  With the \<open>i\<close> flag two code units match when they canonicalize alike. The patterns of
  the source hold ASCII only, and a code unit of 128 or more never canonicalizes to an
  ASCII one (22.2.5.6), so folding the ASCII letters is all the patterns can observe.
\<close>

definition toUpper :: "nat \<Rightarrow> nat" where
  "toUpper c = (if 97 \<le> c \<and> c \<le> 122 then c - 32 else c)"

definition toLower :: "nat \<Rightarrow> nat" where
  "toLower c = (if 65 \<le> c \<and> c \<le> 90 then c + 32 else c)"

definition canonicalize :: "bool \<Rightarrow> nat \<Rightarrow> nat" where
  "canonicalize ic c = (if ic then toUpper c else c)"

fun item_has :: "citem \<Rightarrow> nat \<Rightarrow> bool" where
  "item_has (CChar a) c = (c = a)"
| "item_has (CRange lo hi) c = (lo \<le> c \<and> c \<le> hi)"
| "item_has CSpace c = isWhiteSpace c"
| "item_has CNonSpace c = (\<not> isWhiteSpace c)"

definition class_has :: "bool \<Rightarrow> citem list \<Rightarrow> nat \<Rightarrow> bool" where
  "class_has ic items c =
     (if ic then list_ex (\<lambda>it. item_has it c \<or> item_has it (toUpper c) \<or> item_has it (toLower c)) items
      else list_ex (\<lambda>it. item_has it c) items)"

definition class_matches :: "bool \<Rightarrow> bool \<Rightarrow> citem list \<Rightarrow> nat \<Rightarrow> bool" where
  "class_matches ic neg items c = (class_has ic items c \<noteq> neg)"

primrec groups_of :: "regex \<Rightarrow> nat list" where
  "groups_of (Chr a) = []"
| "groups_of (Class neg items) = []"
| "groups_of Dot = []"
| "groups_of Eps = []"
| "groups_of EndAnchor = []"
| "groups_of (Seq r1 r2) = groups_of r1 @ groups_of r2"
| "groups_of (Alt r1 r2) = groups_of r1 @ groups_of r2"
| "groups_of (Rep mn mx greedy r) = groups_of r"
| "groups_of (Group n r) = n # groups_of r"
| "groups_of (Backref n) = []"
| "groups_of (NegLook r) = groups_of r"

text \<open>
  The match state is the end index \<open>e\<close>, the input from \<open>e\<close> on (\<open>rest\<close>) and the captures
  (\<open>None\<close> is \<open>undefined\<close>); a continuation and a matcher take the three in turn.
\<close>

type_synonym captures = "ustring option list"
type_synonym mresult = "(nat \<times> ustring \<times> captures) option"
type_synonym mcont = "nat \<Rightarrow> ustring \<Rightarrow> captures \<Rightarrow> mresult"
type_synonym mfun = "mcont \<Rightarrow> nat \<Rightarrow> ustring \<Rightarrow> captures \<Rightarrow> mresult"

definition clear_captures :: "nat list \<Rightarrow> captures \<Rightarrow> captures" where
  "clear_captures gs caps = foldr (\<lambda>n cs. cs[n := None]) gs caps"

definition accept :: mcont where
  "accept e rest caps = Some (e, rest, caps)"

text \<open>
  \<open>RepeatMatcher\<close> (22.2.2.3.1): an iteration past the minimum that consumes nothing
  fails, the captures of the repeated atom are reset before each iteration. The first
  argument bounds the number of iterations entered; \<open>matcher\<close> passes the minimum plus
  the length of the remaining input plus one, which no run exhausts: an iteration below
  the minimum lowers the minimum, and one past it consumes at least one character.
\<close>

primrec RepeatMatcher :: "nat \<Rightarrow> mfun \<Rightarrow> nat list \<Rightarrow> nat \<Rightarrow> nat option \<Rightarrow> bool \<Rightarrow> mfun" where
  "RepeatMatcher 0 m gs mn mx greedy c e rest caps =
     (if mx = Some 0 then c e rest caps else None)"
| "RepeatMatcher (Suc fuel) m gs mn mx greedy c e rest caps =
     (if mx = Some 0 then c e rest caps
      else if mn \<noteq> 0 then
        m (\<lambda>e' rest' caps'. RepeatMatcher fuel m gs (mn - 1) (map_option (\<lambda>k. k - 1) mx) greedy c e' rest' caps')
          e rest (clear_captures gs caps)
      else if greedy then
        (case m (\<lambda>e' rest' caps'. if e' = e then None
                    else RepeatMatcher fuel m gs 0 (map_option (\<lambda>k. k - 1) mx) greedy c e' rest' caps')
                e rest (clear_captures gs caps) of
           Some z \<Rightarrow> Some z
         | None \<Rightarrow> c e rest caps)
      else
        (case c e rest caps of
           Some z \<Rightarrow> Some z
         | None \<Rightarrow> m (\<lambda>e' rest' caps'. if e' = e then None
                    else RepeatMatcher fuel m gs 0 (map_option (\<lambda>k. k - 1) mx) greedy c e' rest' caps')
                e rest (clear_captures gs caps)))"

primrec matcher :: "regex \<Rightarrow> bool \<Rightarrow> mfun" where
  "matcher (Chr a) ic c e rest caps =
     (case rest of [] \<Rightarrow> None
      | ch # rest' \<Rightarrow> if canonicalize ic ch = canonicalize ic a then c (Suc e) rest' caps else None)"
| "matcher (Class neg items) ic c e rest caps =
     (case rest of [] \<Rightarrow> None
      | ch # rest' \<Rightarrow> if class_matches ic neg items ch then c (Suc e) rest' caps else None)"
| "matcher Dot ic c e rest caps =
     (case rest of [] \<Rightarrow> None
      | ch # rest' \<Rightarrow> if isLineTerminator ch then None else c (Suc e) rest' caps)"
| "matcher Eps ic c e rest caps = c e rest caps"
| "matcher EndAnchor ic c e rest caps = (if rest = [] then c e rest caps else None)"
| "matcher (Seq r1 r2) ic c e rest caps = matcher r1 ic (matcher r2 ic c) e rest caps"
| "matcher (Alt r1 r2) ic c e rest caps =
     (case matcher r1 ic c e rest caps of Some z \<Rightarrow> Some z | None \<Rightarrow> matcher r2 ic c e rest caps)"
| "matcher (Rep mn mx greedy r) ic c e rest caps =
     RepeatMatcher (Suc (mn + length rest)) (matcher r ic) (groups_of r) mn mx greedy c e rest caps"
| "matcher (Group n r) ic c e rest caps =
     matcher r ic (\<lambda>e' rest' caps'. c e' rest' (caps'[n := Some (take (e' - e) rest)])) e rest caps"
| "matcher (Backref n) ic c e rest caps =
     (case caps ! n of
        None \<Rightarrow> c e rest caps
      | Some s \<Rightarrow>
          if length s \<le> length rest
             \<and> map (canonicalize ic) (take (length s) rest) = map (canonicalize ic) s
          then c (e + length s) (drop (length s) rest) caps else None)"
| "matcher (NegLook r) ic c e rest caps =
     (case matcher r ic accept e rest caps of Some z \<Rightarrow> None | None \<Rightarrow> c e rest caps)"

definition lit :: "ustring \<Rightarrow> regex" where
  "lit s = foldr (\<lambda>a r. Seq (Chr a) r) s Eps"

definition seqs :: "regex list \<Rightarrow> regex" where
  "seqs rs = foldr Seq rs Eps"

fun alts :: "regex list \<Rightarrow> regex" where
  "alts [] = Eps"
| "alts [r] = r"
| "alts (r # rs) = Alt r (alts rs)"

definition star :: "regex \<Rightarrow> regex" where "star r = Rep 0 None True r"
definition lazy_star :: "regex \<Rightarrow> regex" where "lazy_star r = Rep 0 None False r"
definition plus1 :: "regex \<Rightarrow> regex" where "plus1 r = Rep 1 None True r"
definition opt :: "regex \<Rightarrow> regex" where "opt r = Rep 0 (Some 1) True r"

definition ws :: regex where "ws = Class False [CSpace]"
definition quote :: regex where "quote = Class False [CChar 34, CChar 39]"
definition anychar :: regex where "anychar = Class False [CSpace, CNonSpace]"

text \<open>
  A \<open>RegExp\<close> object: its pattern, the \<open>i\<close> flag and the number of capture groups. A
  match: \<open>index\<close>, the end index (the \<open>lastIndex\<close> a global \<open>exec\<close> leaves) and
  \<open>match[0], match[1], ...\<close>.
\<close>

record regexp =
  pattern :: regex
  ignoreCase :: bool
  ncaptures :: nat

record rmatch =
  index :: nat
  mend :: nat
  mgroups :: captures

definition match_at :: "regex \<Rightarrow> bool \<Rightarrow> nat \<Rightarrow> nat \<Rightarrow> ustring \<Rightarrow> rmatch option" where
  "match_at r ic n i rest =
     (case matcher r ic accept i rest (replicate (Suc n) None) of
        Some (e, rest', caps) \<Rightarrow>
          Some \<lparr> index = i, mend = e, mgroups = caps[0 := Some (take (e - i) rest)] \<rparr>
      | None \<Rightarrow> None)"

fun search :: "regex \<Rightarrow> bool \<Rightarrow> nat \<Rightarrow> nat \<Rightarrow> ustring \<Rightarrow> rmatch option" where
  "search r ic n i [] = match_at r ic n i []"
| "search r ic n i (ch # rest) =
     (case match_at r ic n i (ch # rest) of
        Some mt \<Rightarrow> Some mt
      | None \<Rightarrow> search r ic n (Suc i) rest)"

text \<open>
  \<open>RegExpBuiltinExec\<close> from \<open>lastIndex = i\<close>: the first index from \<open>i\<close> on where the
  pattern matches; \<open>null\<close> when \<open>i\<close> is past the end or nothing matches.
\<close>

definition exec_from :: "regexp \<Rightarrow> ustring \<Rightarrow> nat \<Rightarrow> rmatch option" where
  "exec_from re s i =
     (if length s < i then None
      else search (pattern re) (ignoreCase re) (ncaptures re) i (drop i s))"

subsection \<open>The patterns of the source\<close>

definition tag_names :: regex where
  "tag_names = alts (map lit [S ''thought'', S ''think'', S ''tool_call'', S ''tool_pending'',
                              S ''tool_result'', S ''tool'', S ''answer''])"

text \<open>
  \<^verbatim>\<open><(thought|think|tool_call|tool_pending|tool_result|tool|answer)(?:\s+([^>]*?))?>\<close>
  \<^verbatim>\<open>(?:([^<]*(?:<(?![\/]?\1)[^<]*)*?)(?:<\/\1>|$))?|<(tool_pending)\s+([^>]*?)\s*\/>\<close>
  (60 is \<open><\<close>, 62 is \<open>>\<close>, 47 is \<open>/\<close>).
\<close>

definition TAG_REGEX :: regexp where
  "TAG_REGEX = \<lparr> pattern =
      Alt (seqs [Chr 60, Group 1 tag_names,
                 opt (seqs [plus1 ws, Group 2 (lazy_star (Class True [CChar 62]))]),
                 Chr 62,
                 opt (seqs [Group 3 (seqs [star (Class True [CChar 60]),
                                           lazy_star (seqs [Chr 60,
                                                            NegLook (seqs [opt (Class False [CChar 47]), Backref 1]),
                                                            star (Class True [CChar 60])])]),
                            Alt (seqs [Chr 60, Chr 47, Backref 1, Chr 62]) EndAnchor])])
          (seqs [Chr 60, Group 4 (lit (S ''tool_pending'')), plus1 ws,
                 Group 5 (lazy_star (Class True [CChar 62])), star ws, Chr 47, Chr 62]),
     ignoreCase = False, ncaptures = 5 \<rparr>"

text \<open>\<^verbatim>\<open>name=["'](.*?)["']\<close>\<close>

definition NAME_ATTR_REGEX :: regexp where
  "NAME_ATTR_REGEX = \<lparr> pattern = seqs [lit (S ''name=''), quote, Group 1 (lazy_star Dot), quote],
     ignoreCase = False, ncaptures = 1 \<rparr>"

text \<open>\<^verbatim>\<open><argument\s+name=["'](.*?)["']\s+value=["'](.*?)["']\s*\/?>\<close>\<close>

definition ARGUMENT_REGEX :: regexp where
  "ARGUMENT_REGEX = \<lparr> pattern =
      seqs [lit (S ''<argument''), plus1 ws, lit (S ''name=''), quote, Group 1 (lazy_star Dot), quote,
            plus1 ws, lit (S ''value=''), quote, Group 2 (lazy_star Dot), quote, star ws,
            opt (Chr 47), Chr 62],
     ignoreCase = False, ncaptures = 2 \<rparr>"

text \<open>\<^verbatim>\<open><([a-zA-Z0-9_]+)>([\s\S]*?)<\/\1>\<close>\<close>

definition DEEP_ARG_REGEX :: regexp where
  "DEEP_ARG_REGEX = \<lparr> pattern =
      seqs [Chr 60, Group 1 (plus1 (Class False [CRange 97 122, CRange 65 90, CRange 48 57, CChar 95])),
            Chr 62, Group 2 (lazy_star anychar), Chr 60, Chr 47, Backref 1, Chr 62],
     ignoreCase = False, ncaptures = 2 \<rparr>"

text \<open>
  \<open>new RegExp(`${name}=["'](.*?)["']`)\<close>, for a name without pattern syntax in it (the
  four names \<open>getAttr\<close> is called with are such).
\<close>

definition attr_regexp :: "string \<Rightarrow> regexp" where
  "attr_regexp name = \<lparr> pattern = seqs [lit (S name), Chr 61, quote, Group 1 (lazy_star Dot), quote],
     ignoreCase = False, ncaptures = 1 \<rparr>"

text \<open>
  The three patterns of the clean-up, and \<open>/\s/g\<close>:
  \<^verbatim>\<open>/(?:GET|UPDATE|DELETE|SEARCH|WRITE)\s+(?:MEMORY|WEB|FILE)[\s\S]*?(\n|$)/gi\<close>,
  \<^verbatim>\<open>/\{\s*"name"\s*:\s*"[^"]+"\s*,\s*"arguments"[\s\S]*?\}/g\<close> and the empty code
  block, three backquotes (code unit 96), \<open>[a-z]*\<close>, \<open>\s*\<close>, three backquotes, with
  the flags \<open>gi\<close>.
\<close>

definition TOOL_HEADER_REGEX :: regexp where
  "TOOL_HEADER_REGEX = \<lparr> pattern =
      seqs [alts (map lit [S ''GET'', S ''UPDATE'', S ''DELETE'', S ''SEARCH'', S ''WRITE'']),
            plus1 ws,
            alts (map lit [S ''MEMORY'', S ''WEB'', S ''FILE'']),
            lazy_star anychar,
            Group 1 (Alt (Chr 10) EndAnchor)],
     ignoreCase = True, ncaptures = 1 \<rparr>"

definition RAW_JSON_REGEX :: regexp where
  "RAW_JSON_REGEX = \<lparr> pattern =
      seqs [Chr 123, star ws, lit (S ''\"name\"''), star ws, Chr 58, star ws,
            Chr 34, plus1 (Class True [CChar 34]), Chr 34, star ws, Chr 44, star ws,
            lit (S ''\"arguments\"''), lazy_star anychar, Chr 125],
     ignoreCase = False, ncaptures = 0 \<rparr>"

definition EMPTY_BLOCK_REGEX :: regexp where
  "EMPTY_BLOCK_REGEX = \<lparr> pattern =
      seqs [Chr 96, Chr 96, Chr 96, star (Class False [CRange 97 122]), star ws, Chr 96, Chr 96, Chr 96],
     ignoreCase = True, ncaptures = 0 \<rparr>"

definition WS_REGEX :: regexp where
  "WS_REGEX = \<lparr> pattern = ws, ignoreCase = False, ncaptures = 0 \<rparr>"

section \<open>A matcher never moves backwards\<close>

text \<open>
  Whenever a matcher succeeds, it has called its continuation at an end index that is not
  smaller than the one it started from, on the input that is left there, with as many
  captures as it was given. The loops over all matches of a global pattern terminate by
  this.
\<close>

definition progressive :: "mfun \<Rightarrow> bool" where
  "progressive m = (\<forall>c e rest caps z. m c e rest caps = Some z \<longrightarrow>
      (\<exists>e' caps'. e \<le> e' \<and> e' - e \<le> length rest \<and> length caps' = length caps \<and> c e' (drop (e' - e) rest) caps' = Some z))"

lemma length_clear_captures: "length (clear_captures gs caps) = length caps"
  unfolding clear_captures_def by (induction gs) simp_all

lemma progressiveD:
  "progressive m \<Longrightarrow> m c e rest caps = Some z \<Longrightarrow>
     \<exists>e' caps'. e \<le> e' \<and> e' - e \<le> length rest \<and> length caps' = length caps \<and> c e' (drop (e' - e) rest) caps' = Some z"
  unfolding progressive_def by blast

lemma progress_here: "c e rest caps = Some z \<Longrightarrow>
     \<exists>e' caps'. e \<le> e' \<and> e' - e \<le> length rest \<and> length caps' = length caps \<and> c e' (drop (e' - e) rest) caps' = Some z"
  by (rule exI[of _ e], rule exI[of _ caps]) simp

lemma progress_trans:
  assumes "e \<le> e1" "e1 - e \<le> length rest" "length caps1 = length caps"
    and "\<exists>e' caps'. e1 \<le> e' \<and> e' - e1 \<le> length (drop (e1 - e) rest) \<and> length caps' = length caps1
           \<and> c e' (drop (e' - e1) (drop (e1 - e) rest)) caps' = Some z"
  shows "\<exists>e' caps'. e \<le> e' \<and> e' - e \<le> length rest \<and> length caps' = length caps \<and> c e' (drop (e' - e) rest) caps' = Some z"
proof -
  from assms(4) obtain e2 caps2 where h: "e1 \<le> e2" "e2 - e1 \<le> length (drop (e1 - e) rest)"
    "c e2 (drop (e2 - e1) (drop (e1 - e) rest)) caps2 = Some z" and l: "length caps2 = length caps1" by blast
  have "e2 - e1 + (e1 - e) = e2 - e" using assms(1) h(1) by simp
  then have "drop (e2 - e1) (drop (e1 - e) rest) = drop (e2 - e) rest" by simp
  moreover have "e2 - e \<le> length rest" using assms(1,2) h(1,2) by simp
  moreover have "e \<le> e2" using assms(1) h(1) by simp
  moreover have "length caps2 = length caps" using l assms(3) by simp
  ultimately show ?thesis using h(3) by metis
qed

lemma progressiveI:
  "(\<And>c e rest caps z. m c e rest caps = Some z \<Longrightarrow>
     \<exists>e' caps'. e \<le> e' \<and> e' - e \<le> length rest \<and> length caps' = length caps \<and> c e' (drop (e' - e) rest) caps' = Some z)
   \<Longrightarrow> progressive m"
  unfolding progressive_def by blast

lemma progress_step: "c (Suc e) rest' caps = Some z \<Longrightarrow>
     \<exists>e' caps'. e \<le> e' \<and> e' - e \<le> length (ch # rest') \<and> length caps' = length caps
       \<and> c e' (drop (e' - e) (ch # rest')) caps' = Some z"
  by (rule exI[of _ "Suc e"], rule exI[of _ caps]) simp

lemma RepeatMatcher_progressive:
  assumes m: "progressive m"
  shows "progressive (RepeatMatcher fuel m gs mn mx greedy)"
proof (induction fuel arbitrary: mn mx)
  case 0
  show ?case
  proof (rule progressiveI)
    fix c e rest caps z
    assume "RepeatMatcher 0 m gs mn mx greedy c e rest caps = Some z"
    then have "c e rest caps = Some z" by (simp split: if_splits)
    then show "\<exists>e' caps'. e \<le> e' \<and> e' - e \<le> length rest \<and> length caps' = length caps \<and> c e' (drop (e' - e) rest) caps' = Some z"
      by (rule progress_here)
  qed
next
  case (Suc fuel)
  show ?case
  proof (rule progressiveI)
    fix c e rest caps z
    assume a: "RepeatMatcher (Suc fuel) m gs mn mx greedy c e rest caps = Some z"
    let ?goal = "\<exists>e' caps'. e \<le> e' \<and> e' - e \<le> length rest \<and> length caps' = length caps \<and> c e' (drop (e' - e) rest) caps' = Some z"
    let ?d0 = "\<lambda>e' rest' caps'. if e' = e then None
                    else RepeatMatcher fuel m gs 0 (map_option (\<lambda>k. k - 1) mx) greedy c e' rest' caps'"
    have viaM: ?goal if "m d e rest (clear_captures gs caps) = Some z"
       and d: "\<And>e1 r1 c1. d e1 r1 c1 = Some z \<Longrightarrow> RepeatMatcher fuel m gs mn' (map_option (\<lambda>k. k - 1) mx) greedy c e1 r1 c1 = Some z"
     for d mn'
    proof -
      from progressiveD[OF m that(1)] obtain e1 caps1 where
        h: "e \<le> e1" "e1 - e \<le> length rest" "d e1 (drop (e1 - e) rest) caps1 = Some z"
        and "length caps1 = length (clear_captures gs caps)" by blast
      then have l: "length caps1 = length caps" by (simp add: length_clear_captures)
      from d[OF h(3)] have "RepeatMatcher fuel m gs mn' (map_option (\<lambda>k. k - 1) mx) greedy c e1 (drop (e1 - e) rest) caps1 = Some z" .
      from progressiveD[OF Suc.IH this] show ?thesis
        by (intro progress_trans[OF h(1,2) l])
    qed
    have viaD: "m ?d0 e rest (clear_captures gs caps) = Some z \<Longrightarrow> ?goal"
    proof (rule viaM[of ?d0 0])
      fix e1 r1 c1
      assume "?d0 e1 r1 c1 = Some z"
      then show "RepeatMatcher fuel m gs 0 (map_option (\<lambda>k. k - 1) mx) greedy c e1 r1 c1 = Some z"
        by (simp split: if_splits)
    qed
    show ?goal
    proof (cases "mx = Some 0")
      case True
      with a have "c e rest caps = Some z" by simp
      then show ?thesis by (rule progress_here)
    next
      case False
      note mx = this
      show ?thesis
      proof (cases "mn \<noteq> 0")
        case True
        with a mx have "m (\<lambda>e' rest' caps'. RepeatMatcher fuel m gs (mn - 1) (map_option (\<lambda>k. k - 1) mx) greedy c e' rest' caps')
          e rest (clear_captures gs caps) = Some z" by simp
        then show ?thesis by (rule viaM) simp
      next
        case False
        then have mn: "mn = 0" by simp
        from a mx mn have "c e rest caps = Some z \<or> m ?d0 e rest (clear_captures gs caps) = Some z"
        proof (cases greedy)
          case True
          then have g: "greedy = True" by simp
          from a mx mn have "(case m ?d0 e rest (clear_captures gs caps) of Some z \<Rightarrow> Some z | None \<Rightarrow> c e rest caps) = Some z"
            unfolding g by simp
          then show ?thesis by (cases "m ?d0 e rest (clear_captures gs caps)") simp_all
        next
          case False
          then have g: "greedy = False" by simp
          from a mx mn have "(case c e rest caps of Some z \<Rightarrow> Some z | None \<Rightarrow> m ?d0 e rest (clear_captures gs caps)) = Some z"
            unfolding g by simp
          then show ?thesis by (cases "c e rest caps") simp_all
        qed
        then show ?thesis
        proof
          assume "c e rest caps = Some z"
          then show ?thesis by (rule progress_here)
        next
          assume "m ?d0 e rest (clear_captures gs caps) = Some z"
          then show ?thesis by (rule viaD)
        qed
      qed
    qed
  qed
qed

lemma matcher_progressive: "progressive (matcher r ic)"
proof (induction r)
  case (Chr a)
  show ?case
  proof (rule progressiveI)
    fix c e rest caps z
    assume a: "matcher (Chr a) ic c e rest caps = Some z"
    then obtain ch rest' where r: "rest = ch # rest'" by (cases rest) auto
    with a have "c (Suc e) rest' caps = Some z" by (simp split: if_splits)
    then show "\<exists>e' caps'. e \<le> e' \<and> e' - e \<le> length rest \<and> length caps' = length caps \<and> c e' (drop (e' - e) rest) caps' = Some z"
      unfolding r by (rule progress_step)
  qed
next
  case (Class neg items)
  show ?case
  proof (rule progressiveI)
    fix c e rest caps z
    assume a: "matcher (Class neg items) ic c e rest caps = Some z"
    then obtain ch rest' where r: "rest = ch # rest'" by (cases rest) auto
    with a have "c (Suc e) rest' caps = Some z" by (simp split: if_splits)
    then show "\<exists>e' caps'. e \<le> e' \<and> e' - e \<le> length rest \<and> length caps' = length caps \<and> c e' (drop (e' - e) rest) caps' = Some z"
      unfolding r by (rule progress_step)
  qed
next
  case Dot
  show ?case
  proof (rule progressiveI)
    fix c e rest caps z
    assume a: "matcher Dot ic c e rest caps = Some z"
    then obtain ch rest' where r: "rest = ch # rest'" by (cases rest) auto
    with a have "c (Suc e) rest' caps = Some z" by (simp split: if_splits)
    then show "\<exists>e' caps'. e \<le> e' \<and> e' - e \<le> length rest \<and> length caps' = length caps \<and> c e' (drop (e' - e) rest) caps' = Some z"
      unfolding r by (rule progress_step)
  qed
next
  case Eps
  show ?case
  proof (rule progressiveI)
    fix c e rest caps z
    assume "matcher Eps ic c e rest caps = Some z"
    then have "c e rest caps = Some z" by simp
    then show "\<exists>e' caps'. e \<le> e' \<and> e' - e \<le> length rest \<and> length caps' = length caps \<and> c e' (drop (e' - e) rest) caps' = Some z"
      by (rule progress_here)
  qed
next
  case EndAnchor
  show ?case
  proof (rule progressiveI)
    fix c e rest caps z
    assume "matcher EndAnchor ic c e rest caps = Some z"
    then have "c e rest caps = Some z" by (simp split: if_splits)
    then show "\<exists>e' caps'. e \<le> e' \<and> e' - e \<le> length rest \<and> length caps' = length caps \<and> c e' (drop (e' - e) rest) caps' = Some z"
      by (rule progress_here)
  qed
next
  case (Seq r1 r2)
  show ?case
  proof (rule progressiveI)
    fix c e rest caps z
    assume "matcher (Seq r1 r2) ic c e rest caps = Some z"
    then have "matcher r1 ic (matcher r2 ic c) e rest caps = Some z" by simp
    from progressiveD[OF Seq.IH(1) this] obtain e1 caps1 where
      h: "e \<le> e1" "e1 - e \<le> length rest" "matcher r2 ic c e1 (drop (e1 - e) rest) caps1 = Some z"
      and l: "length caps1 = length caps" by blast
    from progressiveD[OF Seq.IH(2) h(3)]
    show "\<exists>e' caps'. e \<le> e' \<and> e' - e \<le> length rest \<and> length caps' = length caps \<and> c e' (drop (e' - e) rest) caps' = Some z"
      by (intro progress_trans[OF h(1,2) l])
  qed
next
  case (Alt r1 r2)
  show ?case
  proof (rule progressiveI)
    fix c e rest caps z
    assume a: "matcher (Alt r1 r2) ic c e rest caps = Some z"
    then have "matcher r1 ic c e rest caps = Some z \<or> matcher r2 ic c e rest caps = Some z"
      by (auto split: option.splits)
    then show "\<exists>e' caps'. e \<le> e' \<and> e' - e \<le> length rest \<and> length caps' = length caps \<and> c e' (drop (e' - e) rest) caps' = Some z"
    proof
      assume "matcher r1 ic c e rest caps = Some z"
      then show ?thesis by (rule progressiveD[OF Alt.IH(1)])
    next
      assume "matcher r2 ic c e rest caps = Some z"
      then show ?thesis by (rule progressiveD[OF Alt.IH(2)])
    qed
  qed
next
  case (Rep mn mx greedy r)
  show ?case
  proof (rule progressiveI)
    fix c e rest caps z
    assume "matcher (Rep mn mx greedy r) ic c e rest caps = Some z"
    then have "RepeatMatcher (Suc (mn + length rest)) (matcher r ic) (groups_of r) mn mx greedy c e rest caps = Some z"
      by (simp only: matcher.simps)
    from progressiveD[OF RepeatMatcher_progressive[OF Rep.IH] this]
    show "\<exists>e' caps'. e \<le> e' \<and> e' - e \<le> length rest \<and> length caps' = length caps \<and> c e' (drop (e' - e) rest) caps' = Some z" .
  qed
next
  case (Group n r)
  show ?case
  proof (rule progressiveI)
    fix c e rest caps z
    assume "matcher (Group n r) ic c e rest caps = Some z"
    then have "matcher r ic (\<lambda>e' rest' caps'. c e' rest' (caps'[n := Some (take (e' - e) rest)])) e rest caps = Some z"
      by simp
    from progressiveD[OF Group.IH this] obtain e1 caps1 where
      h: "e \<le> e1" "e1 - e \<le> length rest" "length caps1 = length caps"
         "c e1 (drop (e1 - e) rest) (caps1[n := Some (take (e1 - e) rest)]) = Some z" by blast
    show "\<exists>e' caps'. e \<le> e' \<and> e' - e \<le> length rest \<and> length caps' = length caps \<and> c e' (drop (e' - e) rest) caps' = Some z"
      using h by (intro exI[of _ e1] exI[of _ "caps1[n := Some (take (e1 - e) rest)]"]) simp
  qed
next
  case (Backref n)
  show ?case
  proof (rule progressiveI)
    fix c e rest caps z
    assume a: "matcher (Backref n) ic c e rest caps = Some z"
    show "\<exists>e' caps'. e \<le> e' \<and> e' - e \<le> length rest \<and> length caps' = length caps \<and> c e' (drop (e' - e) rest) caps' = Some z"
    proof (cases "caps ! n")
      case None
      with a have "c e rest caps = Some z" by simp
      then show ?thesis by (rule progress_here)
    next
      case (Some s)
      with a have "length s \<le> length rest" "c (e + length s) (drop (length s) rest) caps = Some z"
        by (auto split: if_splits)
      then show ?thesis
        by (intro exI[of _ "e + length s"] exI[of _ caps]) simp
    qed
  qed
next
  case (NegLook r)
  show ?case
  proof (rule progressiveI)
    fix c e rest caps z
    assume "matcher (NegLook r) ic c e rest caps = Some z"
    then have "c e rest caps = Some z" by (simp split: option.splits)
    then show "\<exists>e' caps'. e \<le> e' \<and> e' - e \<le> length rest \<and> length caps' = length caps \<and> c e' (drop (e' - e) rest) caps' = Some z"
      by (rule progress_here)
  qed
qed

lemma match_at_bounds:
  assumes "match_at r ic n i rest = Some mt"
  shows "index mt = i \<and> i \<le> mend mt \<and> mend mt - i \<le> length rest"
proof -
  from assms obtain e rest' caps where
    m: "matcher r ic accept i rest (replicate (Suc n) None) = Some (e, rest', caps)"
    and mt: "mt = \<lparr> index = i, mend = e, mgroups = caps[0 := Some (take (e - i) rest)] \<rparr>"
    unfolding match_at_def by (auto split: option.splits)
  from progressiveD[OF matcher_progressive m] obtain e' caps' where
    "i \<le> e'" "e' - i \<le> length rest" "accept e' (drop (e' - i) rest) caps' = Some (e, rest', caps)"
    by blast
  then show ?thesis unfolding mt accept_def by simp
qed

lemma search_bounds:
  "search r ic n i rest = Some mt \<Longrightarrow> i \<le> index mt \<and> index mt \<le> mend mt \<and> mend mt \<le> i + length rest"
proof (induction rest arbitrary: i)
  case Nil
  then show ?case using match_at_bounds[of r ic n i "[]" mt] by simp
next
  case (Cons ch rest)
  show ?case
  proof (cases "match_at r ic n i (ch # rest)")
    case None
    with Cons.prems have "search r ic n (Suc i) rest = Some mt" by simp
    from Cons.IH[OF this] show ?thesis by simp
  next
    case (Some mt')
    with Cons.prems have "mt' = mt" by simp
    with Some match_at_bounds[of r ic n i "ch # rest" mt] show ?thesis by auto
  qed
qed

lemma exec_from_bounds:
  assumes "exec_from re s i = Some mt"
  shows "i \<le> index mt \<and> index mt \<le> mend mt \<and> mend mt \<le> length s"
proof -
  from assms have le: "i \<le> length s"
    and s: "search (pattern re) (ignoreCase re) (ncaptures re) i (drop i s) = Some mt"
    unfolding exec_from_def by (auto split: if_splits)
  from search_bounds[OF s] le show ?thesis by simp
qed

text \<open>\<open>match[0]\<close> is the text between \<open>index\<close> and the end of the match.\<close>

lemma match_at_group0:
  assumes "match_at r ic n i rest = Some mt"
  shows "length (mgroups mt) = Suc n \<and> mgroups mt ! 0 = Some (take (mend mt - i) rest)"
proof -
  from assms obtain e rest' caps where
    m: "matcher r ic accept i rest (replicate (Suc n) None) = Some (e, rest', caps)"
    and mt: "mt = \<lparr> index = i, mend = e, mgroups = caps[0 := Some (take (e - i) rest)] \<rparr>"
    unfolding match_at_def by (auto split: option.splits)
  from progressiveD[OF matcher_progressive m] obtain e' caps' where
    "length caps' = length (replicate (Suc n) (None :: ustring option))"
    "accept e' (drop (e' - i) rest) caps' = Some (e, rest', caps)"
    by blast
  then have "length caps = Suc n" unfolding accept_def by auto
  then show ?thesis unfolding mt by simp
qed

lemma search_group0:
  "search r ic n i rest = Some mt \<Longrightarrow>
     length (mgroups mt) = Suc n \<and> mgroups mt ! 0 = Some (take (mend mt - index mt) (drop (index mt - i) rest))"
proof (induction rest arbitrary: i)
  case Nil
  then show ?case using match_at_group0[of r ic n i "[]" mt] by simp
next
  case (Cons ch rest)
  show ?case
  proof (cases "match_at r ic n i (ch # rest)")
    case None
    with Cons.prems have s: "search r ic n (Suc i) rest = Some mt" by simp
    from search_bounds[OF s] have "Suc i \<le> index mt" by simp
    then have "index mt - i = Suc (index mt - Suc i)" by simp
    with Cons.IH[OF s] show ?thesis by simp
  next
    case (Some mt')
    with Cons.prems have "mt' = mt" by simp
    with Some match_at_group0[of r ic n i "ch # rest" mt] match_at_bounds[of r ic n i "ch # rest" mt]
    show ?thesis by auto
  qed
qed

lemma exec_from_group0:
  assumes "exec_from re s i = Some mt"
  shows "length (mgroups mt) = Suc (ncaptures re) \<and> mgroups mt ! 0 = Some (slice s (index mt) (mend mt))"
proof -
  from assms have le: "i \<le> length s"
    and s: "search (pattern re) (ignoreCase re) (ncaptures re) i (drop i s) = Some mt"
    unfolding exec_from_def by (auto split: if_splits)
  from search_bounds[OF s] have "i \<le> index mt" by simp
  with search_group0[OF s] show ?thesis by (simp add: slice_def)
qed

lemma search_match:
  "search r ic n i rest = Some mt \<Longrightarrow> match_at r ic n (index mt) (drop (index mt - i) rest) = Some mt"
proof (induction rest arbitrary: i)
  case Nil
  with match_at_bounds[of r ic n i "[]" mt] show ?case by simp
next
  case (Cons ch rest)
  show ?case
  proof (cases "match_at r ic n i (ch # rest)")
    case None
    with Cons.prems have s: "search r ic n (Suc i) rest = Some mt" by simp
    from search_bounds[OF s] have "Suc i \<le> index mt" by simp
    then have "index mt - i = Suc (index mt - Suc i)" by simp
    with Cons.IH[OF s] show ?thesis by simp
  next
    case (Some mt')
    with Cons.prems have "mt' = mt" by simp
    with Some match_at_bounds[of r ic n i "ch # rest" mt] show ?thesis by auto
  qed
qed

lemma exec_from_match:
  assumes "exec_from re s i = Some mt"
  shows "match_at (pattern re) (ignoreCase re) (ncaptures re) (index mt) (drop (index mt) s) = Some mt"
proof -
  from assms have le: "i \<le> length s"
    and s: "search (pattern re) (ignoreCase re) (ncaptures re) i (drop i s) = Some mt"
    unfolding exec_from_def by (auto split: if_splits)
  from search_bounds[OF s] have "i \<le> index mt" by simp
  with search_match[OF s] show ?thesis by simp
qed

text \<open>A pattern whose alternatives all start with the same character matches no empty
  string, and only where that character stands.\<close>

lemma chr_first_match:
  assumes "match_at (Alt (Seq (Chr a) r1) (Seq (Chr a) r2)) False n i rest = Some mt"
  shows "i < mend mt \<and> (\<exists>r. rest = a # r)"
proof -
  let ?caps0 = "replicate (Suc n) (None :: ustring option)"
  from assms obtain e rest' caps where
    m: "matcher (Alt (Seq (Chr a) r1) (Seq (Chr a) r2)) False accept i rest ?caps0 = Some (e, rest', caps)"
    and mt: "mt = \<lparr> index = i, mend = e, mgroups = caps[0 := Some (take (e - i) rest)] \<rparr>"
    unfolding match_at_def by (auto split: option.splits)
  from m have "matcher (Seq (Chr a) r1) False accept i rest ?caps0 = Some (e, rest', caps)
     \<or> matcher (Seq (Chr a) r2) False accept i rest ?caps0 = Some (e, rest', caps)"
    by (auto split: option.splits)
  then obtain rk where k: "matcher (Seq (Chr a) rk) False accept i rest ?caps0 = Some (e, rest', caps)"
    by blast
  then obtain ch r where r: "rest = ch # r" by (cases rest) auto
  from k r have ch: "ch = a" and k2: "matcher rk False accept (Suc i) r ?caps0 = Some (e, rest', caps)"
    by (auto simp: canonicalize_def split: if_splits)
  from progressiveD[OF matcher_progressive k2] obtain e' caps' where
    "Suc i \<le> e'" "accept e' (drop (e' - Suc i) r) caps' = Some (e, rest', caps)" by blast
  then have "i < e" unfolding accept_def by auto
  with r ch show ?thesis unfolding mt by simp
qed

lemma search_at_start:
  "search r ic n i rest = Some mt \<Longrightarrow> index mt = i \<Longrightarrow> match_at r ic n i rest = Some mt"
proof (cases rest)
  case Nil
  assume "search r ic n i rest = Some mt"
  with Nil show ?thesis by simp
next
  case (Cons ch rest')
  assume s: "search r ic n i rest = Some mt" and i: "index mt = i"
  show ?thesis
  proof (cases "match_at r ic n i (ch # rest')")
    case None
    with s Cons have "search r ic n (Suc i) rest' = Some mt" by simp
    from search_bounds[OF this] i show ?thesis by simp
  next
    case (Some mt')
    with s Cons show ?thesis by simp
  qed
qed

section \<open>All matches of a global pattern\<close>

text \<open>
  \<open>String.prototype.matchAll\<close> and \<open>String.prototype.replace\<close> with a global pattern run
  \<open>exec\<close> until it finds nothing; after an empty match \<open>lastIndex\<close> is advanced by one.
  \<open>find_all re s i\<close> lists the matches from \<open>lastIndex = i\<close> on.
\<close>

function find_all :: "regexp \<Rightarrow> ustring \<Rightarrow> nat \<Rightarrow> rmatch list" where
  "find_all re s i =
     (case exec_from re s i of
        None \<Rightarrow> []
      | Some mt \<Rightarrow> mt # find_all re s (if mend mt = index mt then Suc (mend mt) else mend mt))"
  by pat_completeness auto
termination
proof (relation "measure (\<lambda>(re, s, i). Suc (length s) - i)")
  show "wf (measure (\<lambda>(re, s, i). Suc (length s) - i))" by simp
next
  fix re s i mt
  assume "exec_from re s i = Some mt"
  from exec_from_bounds[OF this]
  show "((re, s, if mend mt = index mt then Suc (mend mt) else mend mt), re, s, i)
          \<in> measure (\<lambda>(re, s, i). Suc (length s) - i)"
    by auto
qed

declare find_all.simps [simp del]

text \<open>
  \<open>s.replace(re, '')\<close>: the text between the matches, where \<open>p\<close> is the position after
  the last match spliced out.
\<close>

fun splice_out :: "ustring \<Rightarrow> nat \<Rightarrow> rmatch list \<Rightarrow> ustring" where
  "splice_out s p [] = drop p s"
| "splice_out s p (mt # mts) =
     (if p \<le> index mt then slice s p (index mt) @ splice_out s (mend mt) mts
      else splice_out s p mts)"

definition replace_all :: "regexp \<Rightarrow> ustring \<Rightarrow> ustring" where
  "replace_all re s = splice_out s 0 (find_all re s 0)"

section \<open>JSON and base64\<close>

text \<open>
  A JSON value as \<open>JSON.parse\<close> builds it. An object is the list of its own properties in
  the order \<open>JSON.stringify\<close> enumerates them: array indices first, ascending, then the
  other keys in the order of their creation. A number keeps the text of its literal.
\<close>

datatype json = JNull | JBool bool | JNum ustring | JStr ustring | JArr "json list"
  | JObj "(ustring \<times> json) list"

definition is_digit :: "nat \<Rightarrow> bool" where
  "is_digit c = (48 \<le> c \<and> c \<le> 57)"

definition digits_val :: "ustring \<Rightarrow> nat" where
  "digits_val ds = foldl (\<lambda>acc c. 10 * acc + (c - 48)) 0 ds"

definition is_array_index :: "ustring \<Rightarrow> bool" where
  "is_array_index k =
     (case k of [] \<Rightarrow> False
      | c # cs \<Rightarrow> list_all is_digit k \<and> (c \<noteq> 48 \<or> cs = []) \<and> digits_val k < 4294967295)"

fun put_index :: "nat \<Rightarrow> ustring \<Rightarrow> 'v \<Rightarrow> (ustring \<times> 'v) list \<Rightarrow> (ustring \<times> 'v) list" where
  "put_index kv k v [] = [(k, v)]"
| "put_index kv k v (p # ps) =
     (if is_array_index (fst p) \<and> digits_val (fst p) < kv then p # put_index kv k v ps
      else (k, v) # p # ps)"

definition js_put :: "ustring \<Rightarrow> 'v \<Rightarrow> (ustring \<times> 'v) list \<Rightarrow> (ustring \<times> 'v) list" where
  "js_put k v ps =
     (if k \<in> set (map fst ps) then map (\<lambda>p. if fst p = k then (k, v) else p) ps
      else if is_array_index k then put_index (digits_val k) k v ps
      else ps @ [(k, v)])"

text \<open>
  \<open>args[k] = v\<close> on an object created by \<open>{}\<close>: the key \<open>__proto__\<close> reaches the setter
  of \<open>Object.prototype\<close>, which ignores a value that is no object.
\<close>

definition obj_assign :: "ustring \<Rightarrow> 'v \<Rightarrow> (ustring \<times> 'v) list \<Rightarrow> (ustring \<times> 'v) list" where
  "obj_assign k v ps = (if k = S ''__proto__'' then ps else js_put k v ps)"

text \<open>
  \<open>QuoteJSONString\<close> (ECMA-262, 25.5.2.3): the two-character escapes, \<open>\u\<close> escapes
  for the other control characters and for surrogates that are not paired.
\<close>

definition hex_digit :: "nat \<Rightarrow> nat" where
  "hex_digit n = (if n < 10 then 48 + n else 87 + n)"

definition u_escape :: "nat \<Rightarrow> ustring" where
  "u_escape c = [92, 117, hex_digit (c div 4096 mod 16), hex_digit (c div 256 mod 16),
                 hex_digit (c div 16 mod 16), hex_digit (c mod 16)]"

definition is_lead :: "nat \<Rightarrow> bool" where "is_lead c = (55296 \<le> c \<and> c \<le> 56319)"
definition is_trail :: "nat \<Rightarrow> bool" where "is_trail c = (56320 \<le> c \<and> c \<le> 57343)"

fun quote_body :: "ustring \<Rightarrow> ustring" where
  "quote_body [] = []"
| "quote_body (c # cs) =
     (if c = 8 then [92, 98] @ quote_body cs
      else if c = 9 then [92, 116] @ quote_body cs
      else if c = 10 then [92, 110] @ quote_body cs
      else if c = 12 then [92, 102] @ quote_body cs
      else if c = 13 then [92, 114] @ quote_body cs
      else if c = 34 then [92, 34] @ quote_body cs
      else if c = 92 then [92, 92] @ quote_body cs
      else if c < 32 then u_escape c @ quote_body cs
      else if is_lead c then
        (case cs of
           [] \<Rightarrow> u_escape c
         | d # ds \<Rightarrow> if is_trail d then c # d # quote_body ds else u_escape c @ quote_body cs)
      else if is_trail c then u_escape c @ quote_body cs
      else c # quote_body cs)"

definition QuoteJSONString :: "ustring \<Rightarrow> ustring" where
  "QuoteJSONString s = [34] @ quote_body s @ [34]"

fun join_comma :: "ustring list \<Rightarrow> ustring" where
  "join_comma [] = []"
| "join_comma [x] = x"
| "join_comma (x # xs) = x @ [44] @ join_comma xs"

text \<open>
  \<open>JSON.stringify\<close> of the number a literal denotes. An integer literal of at most
  fifteen digits is represented exactly and printed digit for digit (\<open>-0\<close> prints as
  \<open>0\<close>). Every other literal goes through the binary floating point of the platform,
  which is outside this development: its text is the parameter \<open>N\<close>, and every result
  below holds for every \<open>N\<close>.
\<close>

definition num_text :: "(ustring \<Rightarrow> ustring) \<Rightarrow> ustring \<Rightarrow> ustring" where
  "num_text N l =
     (let ds = (case l of [] \<Rightarrow> [] | c # cs \<Rightarrow> if c = 45 then cs else l)
      in if ds \<noteq> [] \<and> list_all is_digit ds \<and> length ds \<le> 15
         then (if list_all (\<lambda>c. c = 48) ds then [48] else l)
         else N l)"

fun stringify :: "(ustring \<Rightarrow> ustring) \<Rightarrow> json \<Rightarrow> ustring" where
  "stringify N JNull = S ''null''"
| "stringify N (JBool b) = (if b then S ''true'' else S ''false'')"
| "stringify N (JNum l) = num_text N l"
| "stringify N (JStr s) = QuoteJSONString s"
| "stringify N (JArr xs) = [91] @ join_comma (map (stringify N) xs) @ [93]"
| "stringify N (JObj kvs) =
     [123] @ join_comma (map (\<lambda>kv. QuoteJSONString (fst kv) @ [58] @ stringify N (snd kv)) kvs) @ [125]"

text \<open>
  \<open>JSON.parse\<close>, by recursive descent; \<open>None\<close> is the \<open>SyntaxError\<close>. The first
  argument of \<open>parse_value\<close>, \<open>parse_elems\<close> and \<open>parse_members\<close> bounds the depth of
  the calls; each call consumes input before it calls again with the same argument, so
  twice the length of the text is enough.
\<close>

definition json_ws :: "nat \<Rightarrow> bool" where
  "json_ws c = (c = 32 \<or> c = 9 \<or> c = 10 \<or> c = 13)"

definition skip_ws :: "ustring \<Rightarrow> ustring" where
  "skip_ws s = dropWhile json_ws s"

definition hex_val :: "nat \<Rightarrow> nat option" where
  "hex_val c = (if 48 \<le> c \<and> c \<le> 57 then Some (c - 48)
                else if 97 \<le> c \<and> c \<le> 102 then Some (c - 87)
                else if 65 \<le> c \<and> c \<le> 70 then Some (c - 55)
                else None)"

definition hex4 :: "nat \<Rightarrow> nat \<Rightarrow> nat \<Rightarrow> nat \<Rightarrow> nat option" where
  "hex4 a b c d =
     (case (hex_val a, hex_val b, hex_val c, hex_val d) of
        (Some x, Some y, Some z, Some w) \<Rightarrow> Some (((x * 16 + y) * 16 + z) * 16 + w)
      | _ \<Rightarrow> None)"

definition escape_char :: "nat \<Rightarrow> nat option" where
  "escape_char d =
     (if d = 34 then Some 34 else if d = 92 then Some 92 else if d = 47 then Some 47
      else if d = 98 then Some 8 else if d = 102 then Some 12 else if d = 110 then Some 10
      else if d = 114 then Some 13 else if d = 116 then Some 9 else None)"

definition cons_fst :: "nat \<Rightarrow> (ustring \<times> ustring) option \<Rightarrow> (ustring \<times> ustring) option" where
  "cons_fst c r = (case r of None \<Rightarrow> None | Some (s, rest) \<Rightarrow> Some (c # s, rest))"

fun parse_string_body :: "ustring \<Rightarrow> (ustring \<times> ustring) option" where
  "parse_string_body [] = None"
| "parse_string_body (c # cs) =
     (if c = 34 then Some ([], cs)
      else if c < 32 then None
      else if c = 92 then
        (case cs of
           [] \<Rightarrow> None
         | d # ds \<Rightarrow>
             if d = 117 then
               (case ds of
                  h1 # h2 # h3 # h4 # rest \<Rightarrow>
                    (case hex4 h1 h2 h3 h4 of
                       None \<Rightarrow> None
                     | Some u \<Rightarrow> cons_fst u (parse_string_body rest))
                | _ \<Rightarrow> None)
             else (case escape_char d of
                     None \<Rightarrow> None
                   | Some x \<Rightarrow> cons_fst x (parse_string_body ds)))
      else cons_fst c (parse_string_body cs))"

definition digits1 :: "ustring \<Rightarrow> (ustring \<times> ustring) option" where
  "digits1 s = (let ds = takeWhile is_digit s in if ds = [] then None else Some (ds, dropWhile is_digit s))"

definition parse_frac :: "ustring \<Rightarrow> (ustring \<times> ustring) option" where
  "parse_frac s =
     (case s of
        [] \<Rightarrow> Some ([], s)
      | c # cs \<Rightarrow> if c = 46 then cons_fst 46 (digits1 cs) else Some ([], s))"

definition parse_exp :: "ustring \<Rightarrow> (ustring \<times> ustring) option" where
  "parse_exp s =
     (case s of
        [] \<Rightarrow> Some ([], s)
      | c # cs \<Rightarrow>
          if c = 101 \<or> c = 69 then
            (case cs of
               [] \<Rightarrow> None
             | d # ds \<Rightarrow> if d = 43 \<or> d = 45 then cons_fst c (cons_fst d (digits1 ds))
                          else cons_fst c (digits1 cs))
          else Some ([], s))"

definition parse_int :: "ustring \<Rightarrow> (ustring \<times> ustring) option" where
  "parse_int s =
     (case s of
        [] \<Rightarrow> None
      | c # cs \<Rightarrow>
          if c = 48 then Some ([48], cs)
          else if 49 \<le> c \<and> c \<le> 57 then Some (c # takeWhile is_digit cs, dropWhile is_digit cs)
          else None)"

definition parse_number :: "ustring \<Rightarrow> (ustring \<times> ustring) option" where
  "parse_number s =
     (let neg = (case s of [] \<Rightarrow> False | c # cs \<Rightarrow> c = 45);
          s1 = (if neg then tl s else s)
      in case parse_int s1 of
           None \<Rightarrow> None
         | Some (ip, s2) \<Rightarrow>
             (case parse_frac s2 of
                None \<Rightarrow> None
              | Some (fp, s3) \<Rightarrow>
                  (case parse_exp s3 of
                     None \<Rightarrow> None
                   | Some (ep, s4) \<Rightarrow> Some ((if neg then [45] else []) @ ip @ fp @ ep, s4))))"

fun parse_value :: "nat \<Rightarrow> ustring \<Rightarrow> (json \<times> ustring) option"
  and parse_elems :: "nat \<Rightarrow> ustring \<Rightarrow> json list \<Rightarrow> (json \<times> ustring) option"
  and parse_members :: "nat \<Rightarrow> ustring \<Rightarrow> (ustring \<times> json) list \<Rightarrow> (json \<times> ustring) option" where
  "parse_value fuel s =
     (case fuel of 0 \<Rightarrow> None | Suc n \<Rightarrow>
     (case skip_ws s of
        [] \<Rightarrow> None
      | c # cs \<Rightarrow>
          if c = 123 then
            (case skip_ws cs of
               [] \<Rightarrow> None
             | d # ds \<Rightarrow> if d = 125 then Some (JObj [], ds) else parse_members n (d # ds) [])
          else if c = 91 then
            (case skip_ws cs of
               [] \<Rightarrow> None
             | d # ds \<Rightarrow> if d = 93 then Some (JArr [], ds) else parse_elems n (d # ds) [])
          else if c = 34 then
            (case parse_string_body cs of None \<Rightarrow> None | Some (str, r) \<Rightarrow> Some (JStr str, r))
          else if startsWith (c # cs) (S ''true'') then Some (JBool True, drop 4 (c # cs))
          else if startsWith (c # cs) (S ''false'') then Some (JBool False, drop 5 (c # cs))
          else if startsWith (c # cs) (S ''null'') then Some (JNull, drop 4 (c # cs))
          else (case parse_number (c # cs) of None \<Rightarrow> None | Some (l, r) \<Rightarrow> Some (JNum l, r))))"
| "parse_elems fuel s acc =
     (case fuel of 0 \<Rightarrow> None | Suc n \<Rightarrow>
     (case parse_value n s of
        None \<Rightarrow> None
      | Some (v, r) \<Rightarrow>
          (case skip_ws r of
             [] \<Rightarrow> None
           | c # cs \<Rightarrow> if c = 44 then parse_elems n cs (acc @ [v])
                        else if c = 93 then Some (JArr (acc @ [v]), cs)
                        else None)))"
| "parse_members fuel s acc =
     (case fuel of 0 \<Rightarrow> None | Suc n \<Rightarrow>
     (case s of
        [] \<Rightarrow> None
      | q # cs \<Rightarrow>
          if q \<noteq> 34 then None
          else (case parse_string_body cs of
                  None \<Rightarrow> None
                | Some (k, r) \<Rightarrow>
                    (case skip_ws r of
                       [] \<Rightarrow> None
                     | c # r1 \<Rightarrow>
                         if c \<noteq> 58 then None
                         else (case parse_value n r1 of
                                 None \<Rightarrow> None
                               | Some (v, r2) \<Rightarrow>
                                   (case skip_ws r2 of
                                      [] \<Rightarrow> None
                                    | d # r3 \<Rightarrow>
                                        if d = 44 then parse_members n (skip_ws r3) (js_put k v acc)
                                        else if d = 125 then Some (JObj (js_put k v acc), r3)
                                        else None))))))"

declare parse_value.simps [simp del] parse_elems.simps [simp del] parse_members.simps [simp del]

definition JSON_parse :: "ustring \<Rightarrow> json option" where
  "JSON_parse s =
     (case parse_value (2 * length s + 2) s of
        None \<Rightarrow> None
      | Some (v, r) \<Rightarrow> if skip_ws r = [] then Some v else None)"

text \<open>
  \<open>atob\<close> (the forgiving-base64 decode of the WHATWG Infra standard); \<open>None\<close> is the
  \<open>InvalidCharacterError\<close>.
\<close>

definition ascii_ws :: "nat \<Rightarrow> bool" where
  "ascii_ws c = (c = 9 \<or> c = 10 \<or> c = 12 \<or> c = 13 \<or> c = 32)"

definition b64_val :: "nat \<Rightarrow> nat option" where
  "b64_val c = (if 65 \<le> c \<and> c \<le> 90 then Some (c - 65)
                else if 97 \<le> c \<and> c \<le> 122 then Some (c - 71)
                else if 48 \<le> c \<and> c \<le> 57 then Some (c + 4)
                else if c = 43 then Some 62
                else if c = 47 then Some 63
                else None)"

fun b64_groups :: "nat list \<Rightarrow> nat list" where
  "b64_groups (a # b # c # d # r) =
     (let n = ((a * 64 + b) * 64 + c) * 64 + d
      in (n div 65536) # (n div 256 mod 256) # (n mod 256) # b64_groups r)"
| "b64_groups [a, b, c] = (let n = ((a * 64 + b) * 64 + c) div 4 in [n div 256, n mod 256])"
| "b64_groups [a, b] = [(a * 64 + b) div 16]"
| "b64_groups r = []"

fun all_some :: "'a option list \<Rightarrow> 'a list option" where
  "all_some [] = Some []"
| "all_some (x # xs) =
     (case x of None \<Rightarrow> None
      | Some y \<Rightarrow> (case all_some xs of None \<Rightarrow> None | Some ys \<Rightarrow> Some (y # ys)))"

definition strip_padding :: "ustring \<Rightarrow> ustring" where
  "strip_padding d =
     (if length d mod 4 = 0 then
        (if endsWith d [61, 61] then take (length d - 2) d
         else if endsWith d [61] then take (length d - 1) d
         else d)
      else d)"

definition atob :: "ustring \<Rightarrow> ustring option" where
  "atob s =
     (let d = strip_padding (filter (\<lambda>c. \<not> ascii_ws c) s)
      in if length d mod 4 = 1 then None
         else (case all_some (map b64_val d) of
                 None \<Rightarrow> None
               | Some vs \<Rightarrow> Some (b64_groups vs)))"

section \<open>The tokenizer: \<open>parseMessageContent\<close>\<close>

text \<open>
  A segment is \<open>{type, content, isStreaming?}\<close>. An exception that leaves the function is
  the \<open>Inl\<close> of the result. The module-level state the function can reach is the cache of
  \<open>getAttr\<close> and the \<open>lastIndex\<close> of the two global patterns that \<open>matchAll\<close> copies;
  it is passed in and returned.
\<close>

datatype js_error = TypeError

record part =
  ptype :: string
  content :: ustring
  isStreaming :: "bool option"

record globals =
  ATTR_REGEX_CACHE :: "string \<Rightarrow> regexp option"
  ARGUMENT_REGEX_lastIndex :: nat
  DEEP_ARG_REGEX_lastIndex :: nat

definition initial_globals :: globals where
  "initial_globals = \<lparr> ATTR_REGEX_CACHE = (\<lambda>name. None), ARGUMENT_REGEX_lastIndex = 0,
     DEEP_ARG_REGEX_lastIndex = 0 \<rparr>"

text \<open>\<open>match[n]\<close>, and \<open>match[0]\<close> as a string.\<close>

definition mgroup :: "rmatch \<Rightarrow> nat \<Rightarrow> ustring option" where
  "mgroup mt n = (if n < length (mgroups mt) then mgroups mt ! n else None)"

definition match0 :: "rmatch \<Rightarrow> ustring" where
  "match0 mt = (case mgroup mt 0 of None \<Rightarrow> [] | Some s \<Rightarrow> s)"

text \<open>
  \<open>getAttr(tagContent, name)\<close>: the pattern is compiled on first use and cached;
  \<open>tagContent.match\<close> throws when \<open>tagContent\<close> is \<open>undefined\<close>.
\<close>

definition getAttr :: "globals \<Rightarrow> ustring option \<Rightarrow> string \<Rightarrow> (js_error + ustring option) \<times> globals" where
  "getAttr g tagContent name =
     (case ATTR_REGEX_CACHE g name of
        None \<Rightarrow>
          (case tagContent of
             None \<Rightarrow> Inl TypeError
           | Some tc \<Rightarrow> Inr (case exec_from (attr_regexp name) tc 0 of None \<Rightarrow> None | Some m \<Rightarrow> mgroup m 1),
           g\<lparr> ATTR_REGEX_CACHE := (ATTR_REGEX_CACHE g)(name := Some (attr_regexp name)) \<rparr>)
      | Some re \<Rightarrow>
          (case tagContent of
             None \<Rightarrow> Inl TypeError
           | Some tc \<Rightarrow> Inr (case exec_from re tc 0 of None \<Rightarrow> None | Some m \<Rightarrow> mgroup m 1),
           g))"

text \<open>
  The arguments object of a tool segment. A capture that did not take part is
  \<open>undefined\<close>: as a key it reads \<open>"undefined"\<close>, as a value \<open>JSON.stringify\<close> leaves
  the property out.
\<close>

definition property_key :: "ustring option \<Rightarrow> ustring" where
  "property_key k = (case k of None \<Rightarrow> S ''undefined'' | Some s \<Rightarrow> s)"

type_synonym js_args = "(ustring \<times> ustring option) list"

definition flat_args :: "rmatch list \<Rightarrow> js_args" where
  "flat_args ms = foldl (\<lambda>args am. obj_assign (property_key (mgroup am 1)) (mgroup am 2) args) [] ms"

fun deep_args :: "rmatch list \<Rightarrow> js_args \<Rightarrow> js_error + js_args" where
  "deep_args [] args = Inr args"
| "deep_args (dam # ms) args =
     (if mgroup dam 1 \<in> {Some (S ''arguments''), Some (S ''thought''), Some (S ''think'')}
      then deep_args ms args
      else (case mgroup dam 2 of
              None \<Rightarrow> Inl TypeError
            | Some v \<Rightarrow> deep_args ms (obj_assign (property_key (mgroup dam 1)) (Some (trim v)) args)))"

definition opt_field :: "ustring \<Rightarrow> ustring option \<Rightarrow> (ustring \<times> json) list" where
  "opt_field k v = (case v of None \<Rightarrow> [] | Some s \<Rightarrow> [(k, JStr s)])"

definition tool_json :: "ustring option \<Rightarrow> js_args \<Rightarrow> json" where
  "tool_json toolName args =
     JObj (opt_field (S ''name'') toolName
           @ [(S ''arguments'', JObj (concat (map (\<lambda>kv. opt_field (fst kv) (snd kv)) args)))])"

definition tool_content :: "(ustring \<Rightarrow> ustring) \<Rightarrow> globals \<Rightarrow> ustring \<Rightarrow> ustring \<Rightarrow> ustring
    \<Rightarrow> js_error + ustring" where
  "tool_content N g ty tagAttrs tagInner =
     (if ty = S ''tool'' \<and> str_includes tagAttrs (S ''name='') then
        (if startsWith (trim tagInner) [123] then Inr tagInner
         else
           (case (if flat_args (find_all ARGUMENT_REGEX tagInner (ARGUMENT_REGEX_lastIndex g)) = []
                  then deep_args (find_all DEEP_ARG_REGEX tagInner (DEEP_ARG_REGEX_lastIndex g)) []
                  else Inr (flat_args (find_all ARGUMENT_REGEX tagInner (ARGUMENT_REGEX_lastIndex g)))) of
              Inl err \<Rightarrow> Inl err
            | Inr args \<Rightarrow>
                Inr (stringify N
                      (tool_json (case exec_from NAME_ATTR_REGEX tagAttrs 0 of
                                    None \<Rightarrow> Some (S ''unknown'')
                                  | Some nameMatch \<Rightarrow> mgroup nameMatch 1)
                                 args))))
      else Inr tagInner)"

text \<open>The \<open>try\<close> block of the \<open>tool_pending\<close> branch: a failure of \<open>atob\<close> or
  \<open>JSON.parse\<close> is caught and pushes nothing.\<close>

definition pending_part :: "(ustring \<Rightarrow> ustring) \<Rightarrow> ustring \<Rightarrow> ustring \<Rightarrow> ustring \<Rightarrow> ustring \<Rightarrow> part list" where
  "pending_part N requestId tool action paramsB64 =
     (case atob (replace_all WS_REGEX (trim paramsB64)) of
        None \<Rightarrow> []
      | Some decoded \<Rightarrow>
          (case JSON_parse decoded of
             None \<Rightarrow> []
           | Some params \<Rightarrow>
               [\<lparr> ptype = ''pending'',
                  content = stringify N (JObj [(S ''request_id'', JStr requestId), (S ''tool'', JStr tool),
                                               (S ''action'', JStr action), (S ''params'', params)]),
                  isStreaming = None \<rparr>]))"

definition tool_pending :: "(ustring \<Rightarrow> ustring) \<Rightarrow> globals \<Rightarrow> ustring option
    \<Rightarrow> (js_error + part list) \<times> globals" where
  "tool_pending N g tagContent =
     (case getAttr g tagContent ''request_id'' of
        (Inl err, g1) \<Rightarrow> (Inl err, g1)
      | (Inr requestId, g1) \<Rightarrow>
     (case getAttr g1 tagContent ''tool'' of
        (Inl err, g2) \<Rightarrow> (Inl err, g2)
      | (Inr tool, g2) \<Rightarrow>
     (case getAttr g2 tagContent ''action'' of
        (Inl err, g3) \<Rightarrow> (Inl err, g3)
      | (Inr action, g3) \<Rightarrow>
     (case getAttr g3 tagContent ''params_b64'' of
        (Inl err, g4) \<Rightarrow> (Inl err, g4)
      | (Inr paramsB64, g4) \<Rightarrow>
          (if truthy requestId \<and> truthy tool \<and> truthy action \<and> truthy paramsB64
           then Inr (pending_part N (property_key requestId) (property_key tool) (property_key action)
                       (property_key paramsB64))
           else Inr [], g4)))))"

text \<open>The body of the loop after the text before the match: what one match pushes.\<close>

definition process_match :: "(ustring \<Rightarrow> ustring) \<Rightarrow> globals \<Rightarrow> rmatch \<Rightarrow> (js_error + part list) \<times> globals" where
  "process_match N g mt =
     (case js_or (mgroup mt 1) (mgroup mt 4) of
        None \<Rightarrow> (Inr [], g)
      | Some ty \<Rightarrow>
          if ty = S ''thought'' \<or> ty = S ''think'' then
            (Inr [\<lparr> ptype = ''thought'', content = property_key (js_or (mgroup mt 3) (Some [])),
                    isStreaming = Some (\<not> endsWith (match0 mt) (S ''</'' @ ty @ S ''>'')) \<rparr>], g)
          else if ty = S ''tool_call'' \<or> ty = S ''tool'' then
            (case tool_content N g ty (property_key (js_or (mgroup mt 2) (Some [])))
                    (property_key (js_or (mgroup mt 3) (Some []))) of
               Inl err \<Rightarrow> (Inl err, g)
             | Inr toolContent \<Rightarrow> (Inr [\<lparr> ptype = ''tool'', content = toolContent, isStreaming = None \<rparr>], g))
          else if ty = S ''tool_pending'' then
            tool_pending N g (js_or (mgroup mt 2) (mgroup mt 5))
          else if ty = S ''tool_result'' then (Inr [], g)
          else if ty = S ''answer'' then
            (Inr [\<lparr> ptype = ''text'', content = property_key (js_or (mgroup mt 3) (Some [])),
                    isStreaming = None \<rparr>], g)
          else (Inr [], g))"

definition MAX_CONTENT_LENGTH :: nat where "MAX_CONTENT_LENGTH = 1000000"
definition MAX_ITERATIONS :: nat where "MAX_ITERATIONS = 10000"

definition text_before :: "ustring \<Rightarrow> nat \<Rightarrow> nat \<Rightarrow> part list" where
  "text_before s lastIndex i =
     (if trim (slice s lastIndex i) = [] then []
      else [\<lparr> ptype = ''text'', content = slice s lastIndex i, isStreaming = None \<rparr>])"

text \<open>
  The \<open>while\<close> loop. \<open>reLastIndex\<close> is \<open>tagRegex.lastIndex\<close>, \<open>lastIndex\<close> the local
  variable; the result holds the parts pushed and the final \<open>lastIndex\<close>.
\<close>

function parse_loop :: "(ustring \<Rightarrow> ustring) \<Rightarrow> globals \<Rightarrow> ustring \<Rightarrow> nat \<Rightarrow> nat \<Rightarrow> nat \<Rightarrow> part list
    \<Rightarrow> (js_error + part list \<times> nat) \<times> globals" where
  "parse_loop N g s reLastIndex lastIndex iterations parts =
     (case exec_from TAG_REGEX s reLastIndex of
        None \<Rightarrow> (Inr (parts, lastIndex), g)
      | Some mt \<Rightarrow>
          if MAX_ITERATIONS < Suc iterations then (Inr (parts, lastIndex), g)
          else if index mt = lastIndex \<and> length (match0 mt) = 0 then
            parse_loop N g s (mend mt) (Suc lastIndex) (Suc iterations) parts
          else
            (case process_match N g mt of
               (Inl err, g') \<Rightarrow> (Inl err, g')
             | (Inr new, g') \<Rightarrow>
                 parse_loop N g' s (mend mt) (mend mt) (Suc iterations)
                   (parts @ text_before s lastIndex (index mt) @ new)))"
  by pat_completeness auto
termination
  by (relation "measure (\<lambda>(N, g, s, reLastIndex, lastIndex, iterations, parts). Suc MAX_ITERATIONS - iterations)")
     auto

declare parse_loop.simps [simp del]

definition clean_text :: "ustring \<Rightarrow> ustring" where
  "clean_text s =
     trim (replace_all EMPTY_BLOCK_REGEX (replace_all RAW_JSON_REGEX (replace_all TOOL_HEADER_REGEX s)))"

definition clean_part :: "part \<Rightarrow> part" where
  "clean_part p = (if ptype p = ''text'' then p\<lparr> content := clean_text (content p) \<rparr> else p)"

definition keep_part :: "part \<Rightarrow> bool" where
  "keep_part p = (if ptype p = ''text'' then content p \<noteq> [] else True)"

definition parseMessageContent :: "(ustring \<Rightarrow> ustring) \<Rightarrow> globals \<Rightarrow> ustring
    \<Rightarrow> (js_error + part list) \<times> globals" where
  "parseMessageContent N g s =
     (if s = [] \<or> length (trim s) = 0 then
        (Inr [\<lparr> ptype = ''text'', content = [], isStreaming = None \<rparr>], g)
      else
        (case parse_loop N g (if MAX_CONTENT_LENGTH < length s then take MAX_CONTENT_LENGTH s else s) 0 0 0 [] of
           (Inl err, g') \<Rightarrow> (Inl err, g')
         | (Inr (parts, lastIndex), g') \<Rightarrow>
             (Inr (filter keep_part (map clean_part
                (parts @ text_before (if MAX_CONTENT_LENGTH < length s then take MAX_CONTENT_LENGTH s else s)
                           lastIndex
                           (length (if MAX_CONTENT_LENGTH < length s then take MAX_CONTENT_LENGTH s else s))))),
              g')))"

section \<open>The streaming consumer and the approval handlers\<close>

text \<open>
  One step of the read loop of \<open>handleSubmit\<close>: the chunk is appended, and past
  \<open>MAX_RESPONSE_LENGTH\<close> the response is cut and marked and the loop ends (\<open>True\<close>).
\<close>

definition MAX_RESPONSE_LENGTH :: nat where "MAX_RESPONSE_LENGTH = 5000000"

definition truncation_marker :: ustring where
  "truncation_marker = [10] @ S ''...[truncated]''"

definition accumulate :: "ustring \<Rightarrow> ustring \<Rightarrow> ustring \<times> bool" where
  "accumulate accumulatedResponse chunk =
     (if MAX_RESPONSE_LENGTH < length (accumulatedResponse @ chunk)
      then (take MAX_RESPONSE_LENGTH (accumulatedResponse @ chunk) @ truncation_marker, True)
      else (accumulatedResponse @ chunk, False))"

text \<open>
  The state the approval handlers touch: \<open>votedActions\<close>, the requests sent, the alerts
  shown and the prompts handed to \<open>handleSubmit\<close>. The outcome of the awaited POST is an
  argument: \<open>Inl\<close> when it rejects, \<open>Inr\<close> with \<open>res.data.result\<close> when it resolves.
\<close>

datatype vote = approved | denied

datatype request = ApproveRequest ustring | DenyRequest ustring | PendingCountRequest

record PendingAction =
  request_id :: ustring
  tool :: ustring
  action :: ustring
  params :: json

record chat =
  votedActions :: "ustring \<Rightarrow> vote option"
  requests :: "request list"
  alerts :: "string list"
  submitted :: "ustring list"

definition approve_followUp :: "(ustring \<Rightarrow> ustring) \<Rightarrow> json option \<Rightarrow> ustring" where
  "approve_followUp N result =
     S ''USER APPROVED: The action was APPROVED. Tool Result: ''
     @ (case result of None \<Rightarrow> S ''undefined'' | Some j \<Rightarrow> stringify N j)
     @ S ''. '' @ [10] @ S ''            '' @ [10]
     @ S ''CRITICAL: Please provide a clear, user-friendly summary of what was accomplished (e.g., \"I''
     @ [39] @ S ''ve written the file test.txt with your content\"). If there was an error in the tool output, explain it concisely.''"

definition deny_followUp :: ustring where
  "deny_followUp = S ''The user DENIED the action. Inform the user you cannot proceed with that specific action and explain if necessary.''"

definition handleApproveAction :: "(ustring \<Rightarrow> ustring) \<Rightarrow> PendingAction \<Rightarrow> unit + json option \<Rightarrow> chat \<Rightarrow> chat" where
  "handleApproveAction N pending outcome st =
     (case outcome of
        Inl failure \<Rightarrow>
          st\<lparr> votedActions := (votedActions st)(request_id pending := Some approved),
              requests := requests st @ [ApproveRequest (request_id pending)],
              alerts := alerts st @ [''Approval failed.''] \<rparr>
      | Inr result \<Rightarrow>
          st\<lparr> votedActions := (votedActions st)(request_id pending := Some approved),
              requests := requests st @ [ApproveRequest (request_id pending), PendingCountRequest],
              submitted := submitted st @ [approve_followUp N result] \<rparr>)"

definition handleDenyAction :: "PendingAction \<Rightarrow> unit + json option \<Rightarrow> chat \<Rightarrow> chat" where
  "handleDenyAction pending outcome st =
     (case outcome of
        Inl failure \<Rightarrow>
          st\<lparr> votedActions := (votedActions st)(request_id pending := Some denied),
              requests := requests st @ [DenyRequest (request_id pending)],
              alerts := alerts st @ [''Denial failed.''] \<rparr>
      | Inr ack \<Rightarrow>
          st\<lparr> votedActions := (votedActions st)(request_id pending := Some denied),
              requests := requests st @ [DenyRequest (request_id pending), PendingCountRequest],
              submitted := submitted st @ [deny_followUp] \<rparr>)"






text \<open>\<open>JSON.parse(p.content)\<close> of a pending segment, read as a \<open>PendingAction\<close>.\<close>

definition decode_pending :: "ustring \<Rightarrow> PendingAction option" where
  "decode_pending c =
     (case JSON_parse c of
        Some (JObj [(k1, JStr r), (k2, JStr t), (k3, JStr a), (k4, p)]) \<Rightarrow>
          if k1 = S ''request_id'' \<and> k2 = S ''tool'' \<and> k3 = S ''action'' \<and> k4 = S ''params''
          then Some \<lparr> request_id = r, tool = t, action = a, params = p \<rparr> else None
      | _ \<Rightarrow> None)"

section \<open>Evaluation\<close>

text \<open>
  Rules for running the definitions on concrete input with the simplifier: equations
  by the shape of the input, and congruence rules that keep the simplifier out of
  continuations and of the input that is left.
\<close>

lemma replicate_numeral: "replicate (numeral k) a = a # replicate (pred_numeral k) a"
  by (simp add: numeral_eq_Suc)

lemma matcher_cong: "e = e' \<Longrightarrow> caps = caps' \<Longrightarrow> matcher r ic c e rest caps = matcher r ic c e' rest caps'" by simp
lemma RepeatMatcher_cong: "fuel = fuel' \<Longrightarrow> mn = mn' \<Longrightarrow> mx = mx' \<Longrightarrow> e = e' \<Longrightarrow> caps = caps' \<Longrightarrow> RepeatMatcher fuel m gs mn mx greedy c e rest caps = RepeatMatcher fuel' m gs mn' mx' greedy c e' rest caps'" by simp

lemma matcher_Chr_ev:
  "matcher (Chr a) ic c e [] caps = None"
  "matcher (Chr a) ic c e (ch # rest) caps = (if canonicalize ic ch = canonicalize ic a then c (Suc e) rest caps else None)"
  by simp_all
lemma matcher_Class_ev:
  "matcher (Class neg items) ic c e [] caps = None"
  "matcher (Class neg items) ic c e (ch # rest) caps = (if class_matches ic neg items ch then c (Suc e) rest caps else None)"
  by simp_all
lemma matcher_Dot_ev:
  "matcher Dot ic c e [] caps = None"
  "matcher Dot ic c e (ch # rest) caps = (if isLineTerminator ch then None else c (Suc e) rest caps)"
  by simp_all
lemma matcher_End_ev:
  "matcher EndAnchor ic c e [] caps = c e [] caps"
  "matcher EndAnchor ic c e (ch # rest) caps = None"
  by simp_all
lemma matcher_Backref_ev:
  "matcher (Backref n) ic c e rest caps =
     (case caps ! n of
        None \<Rightarrow> c e rest caps
      | Some s \<Rightarrow>
          if length s \<le> length rest
             \<and> map (canonicalize ic) (take (length s) rest) = map (canonicalize ic) s
          then (case drop (length s) rest of
                  [] \<Rightarrow> c (e + length s) [] caps
                | x # xs \<Rightarrow> c (e + length s) (x # xs) caps)
          else None)"
  by (simp split: option.splits list.splits)
lemma RepeatMatcher_numeral:
  "RepeatMatcher (numeral k) m gs mn mx greedy c e rest caps =
     (if mx = Some 0 then c e rest caps
      else if mn \<noteq> 0 then
        m (\<lambda>e' rest' caps'. RepeatMatcher (pred_numeral k) m gs (mn - 1) (map_option (\<lambda>k. k - 1) mx) greedy c e' rest' caps')
          e rest (clear_captures gs caps)
      else if greedy then
        (case m (\<lambda>e' rest' caps'. if e' = e then None
                    else RepeatMatcher (pred_numeral k) m gs 0 (map_option (\<lambda>k. k - 1) mx) greedy c e' rest' caps')
                e rest (clear_captures gs caps) of
           Some z \<Rightarrow> Some z
         | None \<Rightarrow> c e rest caps)
      else
        (case c e rest caps of
           Some z \<Rightarrow> Some z
         | None \<Rightarrow> m (\<lambda>e' rest' caps'. if e' = e then None
                    else RepeatMatcher (pred_numeral k) m gs 0 (map_option (\<lambda>k. k - 1) mx) greedy c e' rest' caps')
                e rest (clear_captures gs caps)))"
  by (simp add: numeral_eq_Suc)

lemmas matcher_ev = matcher_Chr_ev matcher_Class_ev matcher_Dot_ev matcher_End_ev matcher_Backref_ev
  RepeatMatcher_numeral

lemmas rx_defs = S_def TAG_REGEX_def NAME_ATTR_REGEX_def ARGUMENT_REGEX_def DEEP_ARG_REGEX_def attr_regexp_def
       TOOL_HEADER_REGEX_def RAW_JSON_REGEX_def EMPTY_BLOCK_REGEX_def WS_REGEX_def
       tag_names_def seqs_def lit_def opt_def star_def lazy_star_def plus1_def ws_def quote_def anychar_def
       class_matches_def class_has_def canonicalize_def toUpper_def toLower_def clear_captures_def isWhiteSpace_def isLineTerminator_def replicate_numeral
       exec_from_def match_at_def accept_def find_all.simps replace_all_def

lemmas str_defs = trim_def slice_def startsWith_def endsWith_def js_or_def truthy_def

lemmas json_defs = is_digit_def digits_val_def is_array_index_def js_put_def obj_assign_def hex_digit_def u_escape_def
  is_lead_def is_trail_def QuoteJSONString_def num_text_def json_ws_def skip_ws_def hex_val_def hex4_def escape_char_def
  cons_fst_def digits1_def parse_frac_def parse_exp_def parse_int_def parse_number_def JSON_parse_def ascii_ws_def
  b64_val_def strip_padding_def atob_def parse_value.simps parse_elems.simps parse_members.simps Let_def

lemmas tok_defs = initial_globals_def mgroup_def match0_def getAttr_def property_key_def flat_args_def opt_field_def
  tool_json_def tool_content_def pending_part_def tool_pending_def process_match_def MAX_CONTENT_LENGTH_def
  MAX_ITERATIONS_def text_before_def parse_loop.simps clean_text_def clean_part_def keep_part_def parseMessageContent_def


lemmas ev_cong = matcher_cong RepeatMatcher_cong prod.case_cong_weak sum.case_cong_weak

declare matcher.simps(1,2,3,5,10) [simp del]

lemmas ev = rx_defs str_defs json_defs tok_defs matcher_ev

text \<open>
  A run of \<open>parseMessageContent\<close> on a buffer that is not blank and within the length
  limit, cut into the loop, the remaining text and the clean-up.
\<close>

lemma parse_eval:
  assumes "s \<noteq> []" "trim s \<noteq> []" "length s \<le> MAX_CONTENT_LENGTH"
    and "fst (parse_loop N g s 0 0 0 []) = Inr (parts, li)"
    and "text_before s li (length s) = tb"
    and "filter keep_part (map clean_part (parts @ tb)) = out"
  shows "fst (parseMessageContent N g s) = Inr out"
proof -
  obtain r g' where pl: "parse_loop N g s 0 0 0 [] = (r, g')" by (cases "parse_loop N g s 0 0 0 []")
  with assms(4) have r: "r = Inr (parts, li)" by simp
  from assms(1,2,3) have c: "\<not> (s = [] \<or> length (trim s) = 0)" "\<not> MAX_CONTENT_LENGTH < length s"
    by auto
  show ?thesis
    unfolding parseMessageContent_def using c pl r assms(5,6) by simp
qed

lemma parse_eval_error:
  assumes "s \<noteq> []" "trim s \<noteq> []" "length s \<le> MAX_CONTENT_LENGTH"
    and "fst (parse_loop N g s 0 0 0 []) = Inl err"
  shows "fst (parseMessageContent N g s) = Inl err"
proof -
  obtain r g' where pl: "parse_loop N g s 0 0 0 [] = (r, g')" by (cases "parse_loop N g s 0 0 0 []")
  with assms(4) have r: "r = Inl err" by simp
  from assms(1,2,3) have c: "\<not> (s = [] \<or> length (trim s) = 0)" "\<not> MAX_CONTENT_LENGTH < length s"
    by auto
  show ?thesis
    unfolding parseMessageContent_def using c pl r by simp
qed

section \<open>The state that outlives a call\<close>

text \<open>
  The tokenizer reads and writes three things that outlive a call: the cache of attribute
  patterns and the \<open>lastIndex\<close> of the two global argument patterns. In every state
  that calls of \<open>parseMessageContent\<close> produce, the cache maps a name to the pattern
  \<open>getAttr\<close> would build for it, and both \<open>lastIndex\<close> are 0 (\<open>matchAll\<close> works on a
  clone and leaves them alone).
\<close>

definition globals_ok :: "globals \<Rightarrow> bool" where
  "globals_ok g =
     ((\<forall>name re. ATTR_REGEX_CACHE g name = Some re \<longrightarrow> re = attr_regexp name)
      \<and> ARGUMENT_REGEX_lastIndex g = 0 \<and> DEEP_ARG_REGEX_lastIndex g = 0)"

text \<open>The state of the module after the calls \<open>parseMessageContent(s)\<close> for the strings of
  \<open>ss\<close>, in this order, since the module was loaded.\<close>

definition calls :: "(ustring \<Rightarrow> ustring) \<Rightarrow> ustring list \<Rightarrow> globals" where
  "calls N ss = foldl (\<lambda>g s. snd (parseMessageContent N g s)) initial_globals ss"

text \<open>What \<open>getAttr\<close> returns when the cache holds, for each name, the pattern built from it.\<close>

definition attr_value :: "ustring option \<Rightarrow> string \<Rightarrow> js_error + ustring option" where
  "attr_value tagContent name =
     (case tagContent of
        None \<Rightarrow> Inl TypeError
      | Some tc \<Rightarrow> Inr (case exec_from (attr_regexp name) tc 0 of None \<Rightarrow> None | Some m \<Rightarrow> mgroup m 1))"

lemma initial_globals_ok: "globals_ok initial_globals"
  by (simp add: globals_ok_def initial_globals_def)

lemma getAttr_eq:
  assumes "globals_ok g"
  shows "\<exists>g1. getAttr g tc name = (attr_value tc name, g1) \<and> globals_ok g1"
proof (cases "ATTR_REGEX_CACHE g name")
  case None
  then show ?thesis using assms
    by (auto simp: getAttr_def attr_value_def globals_ok_def)
next
  case (Some re)
  with assms have "re = attr_regexp name" by (simp add: globals_ok_def)
  with Some show ?thesis using assms
    by (auto simp: getAttr_def attr_value_def)
qed

text \<open>The \<open>tool_pending\<close> branch with the cache left out.\<close>

definition pending_value :: "(ustring \<Rightarrow> ustring) \<Rightarrow> ustring option \<Rightarrow> js_error + part list" where
  "pending_value N tc =
     (case attr_value tc ''request_id'' of Inl err \<Rightarrow> Inl err | Inr requestId \<Rightarrow>
     (case attr_value tc ''tool'' of Inl err \<Rightarrow> Inl err | Inr toolAttr \<Rightarrow>
     (case attr_value tc ''action'' of Inl err \<Rightarrow> Inl err | Inr actionAttr \<Rightarrow>
     (case attr_value tc ''params_b64'' of Inl err \<Rightarrow> Inl err | Inr paramsB64 \<Rightarrow>
        (if truthy requestId \<and> truthy toolAttr \<and> truthy actionAttr \<and> truthy paramsB64
         then Inr (pending_part N (property_key requestId) (property_key toolAttr) (property_key actionAttr)
                     (property_key paramsB64))
         else Inr [])))))"

lemma tool_pending_eq:
  assumes "globals_ok g"
  shows "\<exists>g4. tool_pending N g tc = (pending_value N tc, g4) \<and> globals_ok g4"
proof -
  from getAttr_eq[OF assms] obtain g1 where
    1: "getAttr g tc ''request_id'' = (attr_value tc ''request_id'', g1)" "globals_ok g1" by blast
  from getAttr_eq[OF 1(2)] obtain g2 where
    2: "getAttr g1 tc ''tool'' = (attr_value tc ''tool'', g2)" "globals_ok g2" by blast
  from getAttr_eq[OF 2(2)] obtain g3 where
    3: "getAttr g2 tc ''action'' = (attr_value tc ''action'', g3)" "globals_ok g3" by blast
  from getAttr_eq[OF 3(2)] obtain g4 where
    4: "getAttr g3 tc ''params_b64'' = (attr_value tc ''params_b64'', g4)" "globals_ok g4" by blast
  show ?thesis
    unfolding tool_pending_def pending_value_def
    using 1 2 3 4 by (auto split: sum.splits)
qed

lemma tool_content_ok:
  "globals_ok g \<Longrightarrow> tool_content N g ty a i = tool_content N initial_globals ty a i"
  by (simp add: tool_content_def globals_ok_def initial_globals_def)

text \<open>What one match pushes, computed in the state of a freshly loaded module.\<close>

definition match_value :: "(ustring \<Rightarrow> ustring) \<Rightarrow> rmatch \<Rightarrow> js_error + part list" where
  "match_value N mt = fst (process_match N initial_globals mt)"

lemma process_match_eq:
  assumes "globals_ok g"
  shows "\<exists>g'. process_match N g mt = (match_value N mt, g') \<and> globals_ok g'"
proof -
  from tool_pending_eq[OF assms] obtain g4 where
    a: "tool_pending N g (js_or (mgroup mt 2) (mgroup mt 5)) = (pending_value N (js_or (mgroup mt 2) (mgroup mt 5)), g4)"
       "globals_ok g4" by blast
  from tool_pending_eq[OF initial_globals_ok] obtain g5 where
    b: "tool_pending N initial_globals (js_or (mgroup mt 2) (mgroup mt 5)) = (pending_value N (js_or (mgroup mt 2) (mgroup mt 5)), g5)"
    by blast
  show ?thesis
    unfolding match_value_def process_match_def
    using assms a b tool_content_ok[OF assms, of N]
    by (auto split: option.splits sum.splits)
qed

lemma parse_loop_indep:
  "globals_ok g \<Longrightarrow> globals_ok g' \<Longrightarrow>
     fst (parse_loop N g s a b c parts) = fst (parse_loop N g' s a b c parts)"
proof (induction N g s a b c parts arbitrary: g' rule: parse_loop.induct)
  case (1 N g s reLastIndex lastIndex iterations parts)
  show ?case
  proof (cases "exec_from TAG_REGEX s reLastIndex")
    case None
    then show ?thesis by (simp add: parse_loop.simps[of N g] parse_loop.simps[of N g'])
  next
    case (Some mt)
    show ?thesis
    proof (cases "MAX_ITERATIONS < Suc iterations")
      case True
      with Some show ?thesis by (simp add: parse_loop.simps[of N g] parse_loop.simps[of N g'])
    next
      case False
      note it = this
      show ?thesis
      proof (cases "index mt = lastIndex \<and> length (match0 mt) = 0")
        case True
        from "1.IH"(1)[OF Some it True "1.prems"(1) "1.prems"(2)]
        show ?thesis using Some it True
          by (simp add: parse_loop.simps[of N g s reLastIndex] parse_loop.simps[of N g' s reLastIndex])
      next
        case False
        from process_match_eq[OF "1.prems"(1)] obtain y where
          y: "process_match N g mt = (match_value N mt, y)" "globals_ok y" by blast
        from process_match_eq[OF "1.prems"(2)] obtain y' where
          y': "process_match N g' mt = (match_value N mt, y')" "globals_ok y'" by blast
        show ?thesis
        proof (cases "match_value N mt")
          case (Inl err)
          with Some it False y y' show ?thesis
            by (auto simp add: parse_loop.simps[of N g s reLastIndex] parse_loop.simps[of N g' s reLastIndex])
        next
          case (Inr new)
          from "1.IH"(2)[OF Some it False y(1)[symmetric] Inr y(2) y'(2)]
          show ?thesis using Some it False y y' Inr
            by (auto simp add: parse_loop.simps[of N g s reLastIndex] parse_loop.simps[of N g' s reLastIndex])
        qed
      qed
    qed
  qed
qed

lemma parse_loop_ok:
  "globals_ok g \<Longrightarrow> globals_ok (snd (parse_loop N g s a b c parts))"
proof (induction N g s a b c parts rule: parse_loop.induct)
  case (1 N g s reLastIndex lastIndex iterations parts)
  show ?case
  proof (cases "exec_from TAG_REGEX s reLastIndex")
    case None
    then show ?thesis using "1.prems" by (simp add: parse_loop.simps[of N g])
  next
    case (Some mt)
    show ?thesis
    proof (cases "MAX_ITERATIONS < Suc iterations")
      case True
      with Some show ?thesis using "1.prems" by (simp add: parse_loop.simps[of N g])
    next
      case False
      note it = this
      show ?thesis
      proof (cases "index mt = lastIndex \<and> length (match0 mt) = 0")
        case True
        from "1.IH"(1)[OF Some it True "1.prems"]
        show ?thesis using Some it True
          by (simp add: parse_loop.simps[of N g s reLastIndex])
      next
        case False
        from process_match_eq[OF "1.prems"] obtain y where
          y: "process_match N g mt = (match_value N mt, y)" "globals_ok y" by blast
        show ?thesis
        proof (cases "match_value N mt")
          case (Inl err)
          with Some it False y show ?thesis
            by (auto simp add: parse_loop.simps[of N g s reLastIndex])
        next
          case (Inr new)
          from "1.IH"(2)[OF Some it False y(1)[symmetric] Inr y(2)]
          show ?thesis using Some it False y Inr
            by (auto simp add: parse_loop.simps[of N g s reLastIndex])
        qed
      qed
    qed
  qed
qed

lemma parse_indep:
  assumes "globals_ok g" "globals_ok g'"
  shows "fst (parseMessageContent N g s) = fst (parseMessageContent N g' s)"
proof -
  let ?s = "if MAX_CONTENT_LENGTH < length s then take MAX_CONTENT_LENGTH s else s"
  have "fst (parse_loop N g ?s 0 0 0 []) = fst (parse_loop N g' ?s 0 0 0 [])"
    by (rule parse_loop_indep[OF assms])
  then show ?thesis
    unfolding parseMessageContent_def
    by (cases "parse_loop N g ?s 0 0 0 []"; cases "parse_loop N g' ?s 0 0 0 []")
       (auto split: sum.splits)
qed

lemma parse_ok:
  assumes "globals_ok g"
  shows "globals_ok (snd (parseMessageContent N g s))"
proof -
  let ?s = "if MAX_CONTENT_LENGTH < length s then take MAX_CONTENT_LENGTH s else s"
  have "globals_ok (snd (parse_loop N g ?s 0 0 0 []))"
    by (rule parse_loop_ok[OF assms])
  then show ?thesis
    unfolding parseMessageContent_def using assms
    by (cases "parse_loop N g ?s 0 0 0 []") (auto split: sum.splits)
qed

lemma calls_ok: "globals_ok (calls N ss)"
  unfolding calls_def
  by (induction ss rule: rev_induct) (simp_all add: initial_globals_ok parse_ok)

section \<open>Facts about \<open>trim\<close>\<close>

lemma trim_Nil: "trim [] = []" by (simp add: trim_def)

lemma trim_idem: "trim (trim s) = trim s"
proof -
  define u where "u = dropWhile isWhiteSpace s"
  define v where "v = dropWhile isWhiteSpace (rev u)"
  have t: "trim s = rev v" by (simp add: trim_def u_def v_def)
  have v_id: "dropWhile isWhiteSpace v = v" by (simp add: v_def)
  have "dropWhile isWhiteSpace (rev v) = rev v"
  proof (cases "v = []")
    case True then show ?thesis by simp
  next
    case False
    have "rev u = takeWhile isWhiteSpace (rev u) @ v" by (simp add: v_def)
    then have "u = rev v @ rev (takeWhile isWhiteSpace (rev u))"
      by (metis rev_append rev_rev_ident)
    with False have hd: "hd (rev v) = hd u" and une: "u \<noteq> []"
      by (metis hd_append2 rev_is_Nil_conv, metis append_is_Nil_conv rev_is_Nil_conv)
    from une have "\<not> isWhiteSpace (hd u)" unfolding u_def by (rule hd_dropWhile)
    with hd False show ?thesis by (cases "rev v") auto
  qed
  then show ?thesis unfolding t by (simp add: trim_def v_id)
qed

lemma clean_text_trimmed: "trim (clean_text s) = clean_text s"
  by (simp add: clean_text_def trim_idem)

lemma trim_nonblank:
  assumes "\<not> isWhiteSpace c"
  shows "trim (c # r) \<noteq> []"
proof -
  have "dropWhile isWhiteSpace (rev r @ [c]) \<noteq> []"
    using assms by (simp add: dropWhile_eq_Nil_conv)
  with assms show ?thesis by (simp add: trim_def)
qed

lemma trim_eq_Nil: "trim s = [] \<longleftrightarrow> (\<forall>c\<in>set s. isWhiteSpace c)"
proof
  assume "trim s = []"
  then have "dropWhile isWhiteSpace (rev (dropWhile isWhiteSpace s)) = []" by (simp add: trim_def)
  then have "\<forall>c\<in>set (dropWhile isWhiteSpace s). isWhiteSpace c"
    by (simp add: dropWhile_eq_Nil_conv)
  moreover have "dropWhile isWhiteSpace s = [] \<or> \<not> isWhiteSpace (hd (dropWhile isWhiteSpace s))"
    using hd_dropWhile[of isWhiteSpace s] by blast
  ultimately have "dropWhile isWhiteSpace s = []"
    by (cases "dropWhile isWhiteSpace s") auto
  then show "\<forall>c\<in>set s. isWhiteSpace c" by (simp add: dropWhile_eq_Nil_conv)
next
  assume "\<forall>c\<in>set s. isWhiteSpace c"
  then have "dropWhile isWhiteSpace s = []" by (simp only: dropWhile_eq_Nil_conv)
  then show "trim s = []" by (simp add: trim_def del: dropWhile_eq_Nil_conv)
qed

section \<open>A run of a character class\<close>

text \<open>
  A greedy star over a character class takes the longest run of characters of the class,
  when what follows the star matches behind this run: there is no backtracking into it.
\<close>

lemma RepeatMatcher_max0: "RepeatMatcher fuel m gs mn (Some 0) greedy c e rest caps = c e rest caps"
  by (cases fuel) simp_all

lemma star_class_run:
  assumes "\<forall>ch\<in>set a. class_matches ic neg items ch"
    and "b = [] \<or> \<not> class_matches ic neg items (hd b)"
    and "length (a @ b) < fuel"
    and "k (e + length a) b caps \<noteq> None"
  shows "RepeatMatcher fuel (matcher (Class neg items) ic) [] 0 None True k e (a @ b) caps
           = k (e + length a) b caps"
  using assms
proof (induction a arbitrary: e fuel)
  case Nil
  then obtain f where f: "fuel = Suc f" by (cases fuel) auto
  from Nil(2) have "matcher (Class neg items) ic
      (\<lambda>e' rest' caps'. if e' = e then None else RepeatMatcher f (matcher (Class neg items) ic) [] 0 (map_option (\<lambda>k. k - 1) None) True k e' rest' caps')
      e b caps = None"
    by (cases b) (auto simp: matcher_Class_ev)
  then show ?case unfolding f by (simp add: clear_captures_def)
next
  case (Cons ch a)
  then obtain f where f: "fuel = Suc f" by (cases fuel) auto
  from Cons.prems have ih: "RepeatMatcher f (matcher (Class neg items) ic) [] 0 None True k (Suc e) (a @ b) caps
           = k (Suc e + length a) b caps"
    by (intro Cons.IH) (auto simp: f)
  from Cons.prems(4) have nn: "k (Suc e + length a) b caps \<noteq> None" by simp
  from Cons.prems(1) have "class_matches ic neg items ch" by simp
  then show ?case unfolding f using ih nn
    by (auto simp: clear_captures_def matcher_Class_ev split: option.splits)
qed

lemma tag_match_at_end: "match_at (pattern TAG_REGEX) False 5 i [] = None"
  by (simp add: TAG_REGEX_def seqs_def match_at_def matcher_Chr_ev)

section \<open>A match of \<open>TAG_REGEX\<close> is not empty\<close>

text \<open>
  Every alternative of \<open>TAG_REGEX\<close> starts with \<open><\<close>: a match is not empty, so the guard
  against a pattern that is stuck never fires, and \<open>match[0]\<close> is the text of the buffer
  between \<open>match.index\<close> and \<open>tagRegex.lastIndex\<close>.
\<close>

lemma TAG_REGEX_shape:
  "\<exists>r1 r2. pattern TAG_REGEX = Alt (Seq (Chr 60) r1) (Seq (Chr 60) r2)"
  by (simp add: TAG_REGEX_def seqs_def)

lemma tag_exec:
  assumes "exec_from TAG_REGEX s i = Some mt"
  shows "index mt < mend mt" and "mend mt \<le> length s"
    and "match0 mt = slice s (index mt) (mend mt)" and "match0 mt \<noteq> []"
    and "\<exists>r. drop (index mt) s = 60 # r"
proof -
  from TAG_REGEX_shape obtain r1 r2 where p: "pattern TAG_REGEX = Alt (Seq (Chr 60) r1) (Seq (Chr 60) r2)"
    by blast
  have ic: "ignoreCase TAG_REGEX = False" by (simp add: TAG_REGEX_def)
  from exec_from_match[OF assms] have
    "match_at (Alt (Seq (Chr 60) r1) (Seq (Chr 60) r2)) False (ncaptures TAG_REGEX) (index mt) (drop (index mt) s) = Some mt"
    by (simp add: p ic)
  from chr_first_match[OF this] show lt: "index mt < mend mt" and "\<exists>r. drop (index mt) s = 60 # r"
    by auto
  from exec_from_bounds[OF assms] show le: "mend mt \<le> length s" by simp
  from exec_from_group0[OF assms] show m0: "match0 mt = slice s (index mt) (mend mt)"
    by (simp add: match0_def mgroup_def)
  from lt le show "match0 mt \<noteq> []" unfolding m0 by (simp add: slice_def)
qed

lemma tag_exec_at_end: "exec_from TAG_REGEX s (length s) = None"
  using tag_match_at_end by (simp add: exec_from_def TAG_REGEX_def)






section \<open>An opening thought tag anywhere in a buffer\<close>

text \<open>
  The content of a thought tag is open for \<open>ty\<close> when no \<open><\<close> in it is followed by \<open>ty\<close>
  or by \<open>/\<close> and \<open>ty\<close>: the lookahead \<open>(?![\/]?\1)\<close> of \<open>TAG_REGEX\<close> lets the inner text run
  over every other \<open><\<close>, and stops it at these.
\<close>

fun open_content :: "ustring \<Rightarrow> ustring \<Rightarrow> bool" where
  "open_content ty [] = True"
| "open_content ty (c # r) =
     ((c = 60 \<longrightarrow> \<not> startsWith r ty \<and> \<not> startsWith r (47 # ty)) \<and> open_content ty r)"

text \<open>The parts of \<open>TAG_REGEX\<close>.\<close>

definition not_lt :: regex where "not_lt = Class True [CChar 60]"

definition slash_name :: regex where
  "slash_name = seqs [opt (Class False [CChar 47]), Backref 1]"

definition inner_step :: regex where
  "inner_step = seqs [Chr 60, NegLook slash_name, star not_lt]"

lemma not_lt_match: "class_matches False True [CChar 60] ch \<longleftrightarrow> ch \<noteq> 60"
  by (simp add: class_matches_def class_has_def)

lemma canonicalize_False: "canonicalize False = (\<lambda>c. c)"
  by (rule ext) (simp add: canonicalize_def)

lemma backref_fails:
  assumes "caps ! n = Some ty" "\<not> startsWith r ty"
  shows "matcher (Backref n) False c e r caps = None"
  using assms by (simp add: matcher.simps startsWith_def canonicalize_False)

lemma lookahead_open:
  assumes c: "caps ! Suc 0 = Some ty"
    and n1: "\<not> startsWith r ty" and n2: "\<not> startsWith r (47 # ty)"
  shows "matcher slash_name False accept e r caps = None"
proof -
  have b1: "matcher (Backref (Suc 0)) False k e' r caps = None" for k e'
    using c n1 by (rule backref_fails)
  show ?thesis
  proof (cases r)
    case Nil
    then show ?thesis
      using b1 by (simp add: slash_name_def seqs_def opt_def matcher_Class_ev)
  next
    case (Cons x r')
    note b1' = b1[unfolded Cons]
    show ?thesis
    proof (cases "x = 47")
      case True
      with n2 Cons have "\<not> startsWith r' ty" by (simp add: startsWith_def)
      from backref_fails[OF c this] have b2: "matcher (Backref (Suc 0)) False k e' r' caps = None" for k e' .
      show ?thesis
        unfolding Cons
        by (simp add: b1'[unfolded True] b2 slash_name_def seqs_def opt_def matcher_Class_ev class_matches_def class_has_def
                      RepeatMatcher_max0 clear_captures_def True)
    next
      case False
      show ?thesis
        unfolding Cons
        by (simp add: b1' False slash_name_def seqs_def opt_def matcher_Class_ev class_matches_def class_has_def clear_captures_def)
    qed
  qed
qed

lemma open_content_append: "open_content ty (a @ b) \<Longrightarrow> open_content ty b"
  by (induction a) simp_all

lemma run_split:
  "r = takeWhile (\<lambda>c. c \<noteq> 60) r @ dropWhile (\<lambda>c. c \<noteq> 60) r"
  "\<forall>ch\<in>set (takeWhile (\<lambda>c. c \<noteq> 60) r). class_matches False True [CChar 60] ch"
  "dropWhile (\<lambda>c. c \<noteq> (60::nat)) r = [] \<or> hd (dropWhile (\<lambda>c. c \<noteq> 60) r) = 60"
  "dropWhile (\<lambda>c. c \<noteq> (60::nat)) r = [] \<or> \<not> class_matches False True [CChar 60] (hd (dropWhile (\<lambda>c. c \<noteq> 60) r))"
proof -
  show "r = takeWhile (\<lambda>c. c \<noteq> 60) r @ dropWhile (\<lambda>c. c \<noteq> 60) r" by simp
  show "\<forall>ch\<in>set (takeWhile (\<lambda>c. c \<noteq> 60) r). class_matches False True [CChar 60] ch"
    by (auto simp: not_lt_match dest: set_takeWhileD)
  show h: "dropWhile (\<lambda>c. c \<noteq> (60::nat)) r = [] \<or> hd (dropWhile (\<lambda>c. c \<noteq> 60) r) = 60"
    using hd_dropWhile[of "\<lambda>c. c \<noteq> (60::nat)" r] by blast
  then show "dropWhile (\<lambda>c. c \<noteq> (60::nat)) r = [] \<or> \<not> class_matches False True [CChar 60] (hd (dropWhile (\<lambda>c. c \<noteq> 60) r))"
    by (auto simp: not_lt_match)
qed

lemma star_not_lt:
  assumes "k (e + length (takeWhile (\<lambda>c. c \<noteq> 60) r)) (dropWhile (\<lambda>c. c \<noteq> 60) r) caps \<noteq> None"
  shows "matcher (star not_lt) False k e r caps =
           k (e + length (takeWhile (\<lambda>c. c \<noteq> 60) r)) (dropWhile (\<lambda>c. c \<noteq> 60) r) caps"
proof -
  let ?a = "takeWhile (\<lambda>c. c \<noteq> 60) r" and ?b = "dropWhile (\<lambda>c. c \<noteq> 60) r"
  have "RepeatMatcher (Suc (length (?a @ ?b))) (matcher (Class True [CChar 60]) False) [] 0 None True k e (?a @ ?b) caps
          = k (e + length ?a) ?b caps"
    using star_class_run[of ?a False True "[CChar 60]" ?b "Suc (length (?a @ ?b))" k e caps]
          run_split(2)[of r] run_split(4)[of r] assms by simp
  then show ?thesis by (simp add: star_def not_lt_def)
qed

lemma lazy_open_loop:
  assumes c1: "caps ! Suc 0 = Some ty"
    and Cfail: "\<And>e' r'. \<not> startsWith r' (47 # ty) \<Longrightarrow> C e' (60 # r') caps = None"
  shows "open_content ty r \<Longrightarrow> r = [] \<or> hd r = 60 \<Longrightarrow> length r < fuel \<Longrightarrow>
         C (e + length r) [] caps \<noteq> None \<Longrightarrow>
         RepeatMatcher fuel (matcher inner_step False) [] 0 None False C e r caps = C (e + length r) [] caps"
proof (induction fuel arbitrary: e r)
  case 0
  then show ?case by simp
next
  case (Suc f)
  show ?case
  proof (cases r)
    case Nil
    with Suc.prems(4) show ?thesis by (cases "C e [] caps") (simp_all add: clear_captures_def)
  next
    case (Cons x r')
    with Suc.prems(2) have x: "x = 60" by simp
    from Suc.prems(1) have o: "\<not> startsWith r' ty" "\<not> startsWith r' (47 # ty)" "open_content ty r'"
      unfolding Cons x by simp_all
    let ?a = "takeWhile (\<lambda>c. c \<noteq> 60) r'" and ?b = "dropWhile (\<lambda>c. c \<noteq> 60) r'"
    have "length r' = length ?a + length ?b" by (metis length_append takeWhile_dropWhile_id)
    then have len: "length r = Suc (length ?a + length ?b)"
      unfolding Cons by (simp del: length_append)
    have ob: "open_content ty ?b" using o(3) run_split(1)[of r'] open_content_append[of ty ?a ?b] by simp
    have e2: "Suc e + length ?a + length ?b = e + length r" using len by simp
    have lb: "length ?b < f" using Suc.prems(3) len by simp
    have nn: "C (Suc e + length ?a + length ?b) [] caps \<noteq> None"
      using Suc.prems(4) unfolding e2 .
    have ih: "RepeatMatcher f (matcher inner_step False) [] 0 None False C (Suc e + length ?a) ?b caps
                = C (e + length r) [] caps"
      using Suc.IH[OF ob run_split(3) lb nn] unfolding e2 .
    let ?d = "\<lambda>e' rest' caps'. if e' = e then None
                 else RepeatMatcher f (matcher inner_step False) [] 0 (map_option (\<lambda>k. k - 1) None) False C e' rest' caps'"
    have d: "matcher Eps False ?d (Suc e + length ?a) ?b caps = C (e + length r) [] caps"
      using ih by simp
    have st: "matcher (star not_lt) False (matcher Eps False ?d) (Suc e) r' caps = C (e + length r) [] caps"
      using star_not_lt[of "matcher Eps False ?d" "Suc e" r' caps] d Suc.prems(4) by simp
    have body: "matcher inner_step False ?d e (60 # r') caps = C (e + length r) [] caps"
      using st lookahead_open[OF c1 o(1,2)]
      by (simp add: inner_step_def seqs_def matcher_Chr_ev canonicalize_def)
    have cf: "C e (60 # r') caps = None" using Cfail[OF o(2)] .
    show ?thesis
      unfolding Cons x using body[unfolded Cons x] cf by (simp add: clear_captures_def)
  qed
qed

definition attrs_part :: regex where
  "attrs_part = opt (seqs [plus1 ws, Group 2 (lazy_star (Class True [CChar 62]))])"

definition closing :: regex where
  "closing = Alt (seqs [Chr 60, Chr 47, Backref 1, Chr 62]) EndAnchor"

definition inner_group :: regex where
  "inner_group = Group 3 (seqs [star not_lt, lazy_star inner_step])"

definition body_part :: regex where
  "body_part = opt (seqs [inner_group, closing])"

definition paired :: regex where
  "paired = seqs [Chr 60, Group 1 tag_names, attrs_part, Chr 62, body_part]"

definition self_closing :: regex where
  "self_closing = seqs [Chr 60, Group 4 (lit (S ''tool_pending'')), plus1 ws,
                        Group 5 (lazy_star (Class True [CChar 62])), star ws, Chr 47, Chr 62]"

lemma TAG_REGEX_parts: "pattern TAG_REGEX = Alt paired self_closing"
  by (simp add: TAG_REGEX_def paired_def self_closing_def body_part_def inner_group_def closing_def
                attrs_part_def inner_step_def slash_name_def not_lt_def)

lemma tag_name_match:
  assumes "ty = S ''thought'' \<or> ty = S ''think''"
  shows "matcher (Group 1 tag_names) False k e (ty @ r) caps = k (e + length ty) r (caps[1 := Some ty])"
  using assms
proof
  assume ty: "ty = S ''thought''"
  show ?thesis
    unfolding ty
    by (cases "k (e + length (S ''thought'')) r (caps[1 := Some (S ''thought'')])")
       (simp_all add: tag_names_def lit_def S_def matcher_Chr_ev canonicalize_def)
next
  assume ty: "ty = S ''think''"
  show ?thesis
    unfolding ty
    by (cases "k (e + length (S ''think'')) r (caps[1 := Some (S ''think'')])")
       (simp_all add: tag_names_def lit_def S_def matcher_Chr_ev canonicalize_def)
qed

lemma attrs_part_skip:
  "matcher attrs_part False k e (62 # r) caps = k e (62 # r) caps"
  by (simp add: attrs_part_def opt_def seqs_def plus1_def ws_def matcher_Class_ev class_matches_def class_has_def
                isWhiteSpace_def)

lemma closing_at_end: "matcher closing False d e [] caps = d e [] caps"
  by (simp add: closing_def seqs_def matcher_Chr_ev matcher_End_ev)

lemma closing_fails:
  assumes c: "caps ! Suc 0 = Some ty" and n: "\<not> startsWith r' (47 # ty)"
  shows "matcher closing False d e (60 # r') caps = None"
proof (cases r')
  case Nil
  then show ?thesis by (simp add: closing_def seqs_def matcher_Chr_ev matcher_End_ev canonicalize_def)
next
  case (Cons x r'')
  show ?thesis
  proof (cases "x = 47")
    case True
    with n Cons have "\<not> startsWith r'' ty" by (simp add: startsWith_def)
    from backref_fails[OF c this] have b: "matcher (Backref (Suc 0)) False k e' r'' caps = None" for k e' .
    show ?thesis
      unfolding Cons True
      by (simp add: closing_def seqs_def matcher_Chr_ev matcher_End_ev canonicalize_def b)
  next
    case False
    then show ?thesis
      unfolding Cons
      by (simp add: closing_def seqs_def matcher_Chr_ev matcher_End_ev canonicalize_def)
  qed
qed

lemma body_open:
  assumes c: "caps ! Suc 0 = Some ty"
    and o: "open_content ty t" and ne: "t \<noteq> []"
    and k: "k (e + length t) [] (caps[3 := Some t]) \<noteq> None"
  shows "matcher body_part False k e t caps = k (e + length t) [] (caps[3 := Some t])"
proof -
  let ?a = "takeWhile (\<lambda>c. c \<noteq> 60) t" and ?b = "dropWhile (\<lambda>c. c \<noteq> 60) t"
  let ?caps = "caps[3 := None]"
  let ?d = "\<lambda>e' rest' caps'. if e' = e then None
              else RepeatMatcher (length t) (matcher (seqs [inner_group, closing]) False) [3] 0
                     (map_option (\<lambda>k. k - 1) (Some (Suc 0))) True k e' rest' caps'"
  let ?G = "\<lambda>e' rest' caps'. matcher (seqs [closing]) False ?d e' rest' (caps'[3 := Some (take (e' - e) t)])"
  let ?C = "matcher Eps False ?G"
  have c': "?caps ! Suc 0 = Some ty" using c by simp
  have lt: "length t = length ?a + length ?b" by (metis length_append takeWhile_dropWhile_id)
  have ob: "open_content ty ?b" using o open_content_append[of ty ?a ?b] by simp
  have fin: "?C (e + length t) [] ?caps = k (e + length t) [] (caps[3 := Some t])"
    using ne by (simp add: seqs_def closing_at_end RepeatMatcher_max0)
  have cfail: "?C e' (60 # r') ?caps = None" if "\<not> startsWith r' (47 # ty)" for e' r'
  proof -
    have "(?caps[3 := Some (take (e' - e) t)]) ! Suc 0 = Some ty" using c by simp
    from closing_fails[OF this that] show ?thesis by (simp add: seqs_def)
  qed
  have e2: "e + length ?a + length ?b = e + length t" using lt by simp
  have nn: "?C (e + length ?a + length ?b) [] ?caps \<noteq> None" unfolding e2 fin by (rule k)
  have loop: "RepeatMatcher (Suc (length ?b)) (matcher inner_step False) [] 0 None False ?C (e + length ?a) ?b ?caps
                = ?C (e + length t) [] ?caps"
    using lazy_open_loop[of ?caps ty ?C ?b "Suc (length ?b)" "e + length ?a", OF c' cfail ob run_split(3) _ nn]
    unfolding e2 by simp
  have gi: "groups_of inner_step = []" by (simp add: inner_step_def seqs_def slash_name_def opt_def star_def not_lt_def)
  have lz: "matcher (seqs [lazy_star inner_step]) False ?G (e + length ?a) ?b ?caps = ?C (e + length t) [] ?caps"
    using loop by (simp add: seqs_def lazy_star_def gi)
  have st: "matcher (star not_lt) False (matcher (seqs [lazy_star inner_step]) False ?G) e t ?caps
              = ?C (e + length t) [] ?caps"
    using star_not_lt[of "matcher (seqs [lazy_star inner_step]) False ?G" e t ?caps] lz fin k by simp
  have grp: "matcher (seqs [inner_group, closing]) False ?d e t ?caps = k (e + length t) [] (caps[3 := Some t])"
    using st fin by (simp add: inner_group_def seqs_def)
  have gb: "groups_of (seqs [inner_group, closing]) = [3]"
    by (simp add: seqs_def inner_group_def closing_def gi lazy_star_def star_def not_lt_def)
  show ?thesis
    using grp k
    by (cases "k (e + length t) [] (caps[3 := Some t])")
       (simp_all add: body_part_def opt_def gb clear_captures_def)
qed

lemma body_empty: "matcher body_part False k e [] caps = k e [] caps"
  by (cases "k e [] caps")
     (simp_all add: body_part_def opt_def seqs_def inner_group_def star_def lazy_star_def not_lt_def inner_step_def
        closing_def slash_name_def matcher_Chr_ev matcher_Class_ev matcher_End_ev clear_captures_def)

lemma chr_step: "matcher (Chr a) False c e (a # x) caps = c (Suc e) x caps"
  by (simp add: matcher_Chr_ev)

lemma seq_step: "matcher (Seq r1 r2) ic c e x caps = matcher r1 ic (matcher r2 ic c) e x caps"
  by simp

lemma open_tag_match:
  assumes ty: "ty = S ''thought'' \<or> ty = S ''think''"
    and o: "open_content ty t"
  shows "match_at (pattern TAG_REGEX) False 5 i (S ''<'' @ ty @ S ''>'' @ t) =
           Some \<lparr> index = i, mend = i + length (S ''<'' @ ty @ S ''>'' @ t),
                  mgroups = [Some (S ''<'' @ ty @ S ''>'' @ t), Some ty, None,
                             if t = [] then None else Some t, None, None] \<rparr>"
proof -
  let ?caps0 = "replicate (Suc 5) (None :: ustring option)"
  let ?caps1 = "?caps0[1 := Some ty]"
  let ?k = "matcher Eps False accept"
  have s: "S ''<'' @ ty @ S ''>'' @ t = 60 # ty @ 62 # t" by (simp add: S_def)
  have c1: "?caps1 ! Suc 0 = Some ty" by (simp add: replicate_numeral)
  have body: "matcher body_part False ?k e t ?caps1 =
                Some (e + length t, [], if t = [] then ?caps1 else ?caps1[3 := Some t])" for e
  proof (cases "t = []")
    case True
    then show ?thesis by (simp add: body_empty accept_def)
  next
    case False
    have "?k (e + length t) [] (?caps1[3 := Some t]) \<noteq> None" by (simp add: accept_def)
    from body_open[of ?caps1 ty t ?k e, OF c1 o False this] False
    show ?thesis by (simp add: accept_def)
  qed
  have pd: "paired = Seq (Chr 60) (Seq (Group 1 tag_names) (Seq attrs_part (Seq (Chr 62) (Seq body_part Eps))))"
    by (simp add: paired_def seqs_def)
  have "matcher paired False accept i (60 # ty @ 62 # t) ?caps0 =
          matcher body_part False ?k (Suc (Suc i + length ty)) t ?caps1"
    by (simp only: pd chr_step seq_step tag_name_match[OF ty] attrs_part_skip add_Suc)
  then have p: "matcher paired False accept i (60 # ty @ 62 # t) ?caps0 =
             Some (Suc (Suc i + length ty) + length t, [], if t = [] then ?caps1 else ?caps1[3 := Some t])"
    by (simp only: body)
  have tk: "take (Suc (Suc i + length ty) + length t - i) (60 # ty @ 62 # t) = 60 # ty @ 62 # t" by simp
  show ?thesis
    unfolding s match_at_def TAG_REGEX_parts
    apply (simp only: matcher.simps(7) p)
    apply (simp add: replicate_numeral)
    done
qed

lemma open_content_no_closing: "open_content ty (u @ 60 # 47 # ty @ v) \<Longrightarrow> False"
proof -
  assume "open_content ty (u @ 60 # 47 # ty @ v)"
  then have "open_content ty (60 # 47 # ty @ v)" by (rule open_content_append)
  then show False by (simp add: startsWith_def)
qed

lemma no_closing_suffix:
  assumes ty: "ty = S ''thought'' \<or> ty = S ''think''"
    and o: "open_content ty t"
  shows "\<not> endsWith (S ''<'' @ ty @ S ''>'' @ t) (S ''</'' @ ty @ S ''>'')"
proof
  let ?w = "S ''<'' @ ty @ S ''>'' @ t" and ?q = "S ''</'' @ ty @ S ''>''"
  assume "endsWith ?w ?q"
  then have "?w = take (length ?w - length ?q) ?w @ ?q"
    unfolding endsWith_def by (metis append_take_drop_id)
  then obtain p where p: "60 # ty @ 62 # t = p @ 60 # 47 # ty @ [62]"
    by (auto simp: S_def)
  from ty have t60: "60 \<notin> set ty" and hd: "ty \<noteq> [] \<and> hd ty \<noteq> 47" by (auto simp: S_def)
  show False
  proof (cases p)
    case Nil
    with p have "ty @ 62 # t = 47 # ty @ [62]" by simp
    with hd show False by (cases ty) auto
  next
    case (Cons x p')
    with p have "ty @ 62 # t = p' @ 60 # 47 # ty @ [62]" by simp
    then obtain us where
      "(ty = p' @ us \<and> us @ 62 # t = 60 # 47 # ty @ [62]) \<or> (ty @ us = p' \<and> 62 # t = us @ 60 # 47 # ty @ [62])"
      unfolding append_eq_append_conv2 by blast
    then show False
    proof
      assume a: "ty = p' @ us \<and> us @ 62 # t = 60 # 47 # ty @ [62]"
      then show False
      proof (cases us)
        case Nil
        with a show False by simp
      next
        case (Cons y us')
        with a have "y = 60" by simp
        with a Cons t60 show False by auto
      qed
    next
      assume b: "ty @ us = p' \<and> 62 # t = us @ 60 # 47 # ty @ [62]"
      then show False
      proof (cases us)
        case Nil
        with b show False by simp
      next
        case (Cons y us')
        with b have "t = us' @ 60 # 47 # ty @ [62]" by simp
        with o open_content_no_closing show False by blast
      qed
    qed
  qed
qed

text \<open>
  The loop at such a tag: the text before it, one thought segment that is still streaming,
  and the end of the buffer.
\<close>

lemma open_thought_loop:
  assumes ty: "ty = S ''thought'' \<or> ty = S ''think''"
    and o: "open_content ty t"
    and s: "s = pre @ S ''<'' @ ty @ S ''>'' @ t"
    and tag: "exec_from TAG_REGEX s reLastIndex = Some mt" "index mt = length pre"
    and it: "iterations < MAX_ITERATIONS"
  shows "parse_loop N g s reLastIndex lastIndex iterations parts =
           (Inr (parts @ text_before s lastIndex (length pre)
                   @ [\<lparr> ptype = ''thought'', content = t, isStreaming = Some True \<rparr>], length s), g)"
proof -
  let ?w = "S ''<'' @ ty @ S ''>'' @ t"
  from exec_from_match[OF tag(1)] have "match_at (pattern TAG_REGEX) False 5 (length pre) ?w = Some mt"
    by (simp add: tag(2) s TAG_REGEX_def)
  with open_tag_match[OF ty o, of "length pre"] have
    mt: "mt = \<lparr> index = length pre, mend = length pre + length ?w,
               mgroups = [Some ?w, Some ty, None, if t = [] then None else Some t, None, None] \<rparr>"
    by simp
  have e: "mend mt = length s" by (simp add: mt s)
  from ty have ne: "ty \<noteq> []" by (auto simp: S_def)
  have j: "js_or (mgroup mt (Suc 0)) (mgroup mt 4) = Some ty"
    using ne by (simp add: mt mgroup_def js_or_def)
  have c: "property_key (js_or (mgroup mt 3) (Some [])) = t"
    by (simp add: mt mgroup_def js_or_def property_key_def)
  have m0: "match0 mt = ?w" by (simp add: mt match0_def mgroup_def)
  have tyb: "(ty = S ''thought'' \<or> ty = S ''think'') = True" using ty by simp
  have pm: "process_match N g mt = (Inr [\<lparr> ptype = ''thought'', content = t, isStreaming = Some True \<rparr>], g)"
    using no_closing_suffix[OF ty o] by (simp add: process_match_def j c m0 tyb)
  have l1: "parse_loop N g s (length s) (length s) (Suc iterations) ps = (Inr (ps, length s), g)" for ps
    by (subst parse_loop.simps) (simp add: tag_exec_at_end)
  from it have i: "\<not> MAX_ITERATIONS < Suc iterations" by simp
  show ?thesis
    using tag_exec(4)[OF tag(1)]
    by (subst parse_loop.simps) (auto simp add: tag i pm e l1)
qed

text \<open>
  Plain text before the tag holds no match, and the whole function gives the text and the
  thought.
\<close>

lemma open_content_plain: "60 \<notin> set t \<Longrightarrow> open_content ty t"
  by (induction t) simp_all

lemma tag_needs_lt:
  assumes "c \<noteq> 60"
  shows "match_at (pattern TAG_REGEX) False 5 i (c # r) = None"
proof (cases "match_at (pattern TAG_REGEX) False 5 i (c # r)")
  case None
  then show ?thesis .
next
  case (Some mt)
  from TAG_REGEX_shape obtain r1 r2 where p: "pattern TAG_REGEX = Alt (Seq (Chr 60) r1) (Seq (Chr 60) r2)"
    by blast
  from chr_first_match[OF Some[unfolded p]] assms show ?thesis by simp
qed

lemma search_skip:
  "60 \<notin> set pre \<Longrightarrow>
     search (pattern TAG_REGEX) False 5 i (pre @ r) = search (pattern TAG_REGEX) False 5 (i + length pre) r"
  by (induction pre arbitrary: i) (simp_all add: tag_needs_lt)

lemma open_tag_exec:
  assumes ty: "ty = S ''thought'' \<or> ty = S ''think''"
    and o: "open_content ty t"
    and pre: "60 \<notin> set pre"
  shows "exec_from TAG_REGEX (pre @ S ''<'' @ ty @ S ''>'' @ t) 0 =
           Some \<lparr> index = length pre, mend = length pre + length (S ''<'' @ ty @ S ''>'' @ t),
                  mgroups = [Some (S ''<'' @ ty @ S ''>'' @ t), Some ty, None,
                             if t = [] then None else Some t, None, None] \<rparr>"
proof -
  let ?w = "S ''<'' @ ty @ S ''>'' @ t"
  have w: "?w = 60 # ty @ 62 # t" by (simp add: S_def)
  have "search (pattern TAG_REGEX) False 5 (length pre) ?w = match_at (pattern TAG_REGEX) False 5 (length pre) ?w"
    unfolding w by (simp add: open_tag_match[OF ty o, unfolded w])
  with search_skip[OF pre, of 0 ?w] open_tag_match[OF ty o, of "length pre"]
  show ?thesis by (simp add: exec_from_def TAG_REGEX_def)
qed

lemma open_thought_buffer:
  assumes ty: "ty = S ''thought'' \<or> ty = S ''think''"
    and o: "open_content ty t"
    and s: "s = pre @ S ''<'' @ ty @ S ''>'' @ t"
    and pre: "60 \<notin> set pre"
    and len: "length s \<le> MAX_CONTENT_LENGTH"
  shows "parseMessageContent N g s =
           (Inr (filter keep_part (map clean_part (text_before s 0 (length pre)))
                 @ [\<lparr> ptype = ''thought'', content = t, isStreaming = Some True \<rparr>]), g)"
proof -
  have m: "exec_from TAG_REGEX s 0 = Some \<lparr> index = length pre, mend = length pre + length (S ''<'' @ ty @ S ''>'' @ t),
                  mgroups = [Some (S ''<'' @ ty @ S ''>'' @ t), Some ty, None,
                             if t = [] then None else Some t, None, None] \<rparr>"
    unfolding s by (rule open_tag_exec[OF ty o pre])
  have it: "0 < MAX_ITERATIONS" by (simp add: MAX_ITERATIONS_def)
  have loop: "parse_loop N g s 0 0 0 [] =
           (Inr ([] @ text_before s 0 (length pre)
                   @ [\<lparr> ptype = ''thought'', content = t, isStreaming = Some True \<rparr>], length s), g)"
    by (rule open_thought_loop[OF ty o s m _ it]) simp
  have "60 \<in> set s" by (simp add: s S_def)
  moreover have "\<not> isWhiteSpace 60" by (simp add: isWhiteSpace_def)
  ultimately have t: "trim s \<noteq> []" unfolding trim_eq_Nil by blast
  then have ne: "s \<noteq> []" by (auto simp: trim_Nil)
  show ?thesis
    using t ne len
    by (simp add: parseMessageContent_def loop text_before_def[of s "length s" "length s"] slice_def trim_Nil
                  keep_part_def clean_part_def)
qed

section \<open>Stripping white space\<close>

text \<open>\<open>b.trim().replace(/\s/g, '')\<close> is \<open>b\<close> without its white space.\<close>

lemma match_at_ws:
  "match_at ws False 0 i [] = None"
  "match_at ws False 0 i (c # r) =
     (if isWhiteSpace c then Some \<lparr> index = i, mend = Suc i, mgroups = [Some [c]] \<rparr> else None)"
  by (simp_all add: match_at_def ws_def matcher_Class_ev class_matches_def class_has_def accept_def)

lemma search_ws:
  "search ws False 0 i r =
     (case dropWhile (\<lambda>c. \<not> isWhiteSpace c) r of
        [] \<Rightarrow> None
      | c # r' \<Rightarrow> Some \<lparr> index = i + length (takeWhile (\<lambda>c. \<not> isWhiteSpace c) r),
                         mend = Suc (i + length (takeWhile (\<lambda>c. \<not> isWhiteSpace c) r)),
                         mgroups = [Some [c]] \<rparr>)"
proof (induction r arbitrary: i)
  case Nil
  show ?case by (simp add: match_at_ws)
next
  case (Cons a r)
  show ?case
  proof (cases "isWhiteSpace a")
    case True
    then show ?thesis by (simp add: match_at_ws)
  next
    case False
    then show ?thesis
      by (cases "dropWhile (\<lambda>c. \<not> isWhiteSpace c) r") (simp_all add: match_at_ws Cons.IH del: dropWhile_eq_Nil_conv)
  qed
qed

lemma strip_ws_from:
  "i \<le> length s \<Longrightarrow>
     splice_out s i (find_all WS_REGEX s i) = filter (\<lambda>c. \<not> isWhiteSpace c) (drop i s)"
proof (induction "length s - i" arbitrary: i rule: less_induct)
  case less
  let ?P = "\<lambda>c. \<not> isWhiteSpace c"
  let ?r = "drop i s"
  have ex: "exec_from WS_REGEX s i = search ws False 0 i ?r"
    using less.prems by (simp add: exec_from_def WS_REGEX_def)
  show ?case
  proof (cases "dropWhile ?P ?r")
    case Nil
    then have "\<forall>c\<in>set ?r. ?P c" by (simp add: dropWhile_eq_Nil_conv)
    then have "filter ?P ?r = ?r" by (simp add: filter_id_conv)
    moreover have "find_all WS_REGEX s i = []"
      by (subst find_all.simps) (simp add: ex search_ws Nil)
    ultimately show ?thesis by simp
  next
    case (Cons c r')
    let ?j = "i + length (takeWhile ?P ?r)"
    have split: "?r = takeWhile ?P ?r @ c # r'"
      using Cons takeWhile_dropWhile_id[of ?P ?r] by simp
    have wsc: "isWhiteSpace c" using Cons hd_dropWhile[of ?P ?r] by force
    have len: "length (takeWhile ?P ?r) + Suc (length r') = length s - i"
      using arg_cong[OF split, of length] by simp
    then have j: "Suc ?j \<le> length s" by simp
    have dj: "drop (Suc ?j) s = r'"
    proof -
      have "drop (Suc ?j) s = drop (Suc (length (takeWhile ?P ?r))) ?r" by (simp add: add.commute)
      also have "\<dots> = drop (Suc (length (takeWhile ?P ?r))) (takeWhile ?P ?r @ c # r')"
        using split by simp
      also have "\<dots> = r'" by simp
      finally show ?thesis .
    qed
    have tk: "slice s i ?j = takeWhile ?P ?r"
    proof -
      have "slice s i ?j = take (length (takeWhile ?P ?r)) ?r" by (simp add: slice_def)
      also have "\<dots> = take (length (takeWhile ?P ?r)) (takeWhile ?P ?r @ c # r')"
        using split by simp
      also have "\<dots> = takeWhile ?P ?r" by simp
      finally show ?thesis .
    qed
    have fa: "find_all WS_REGEX s i =
       \<lparr> index = ?j, mend = Suc ?j, mgroups = [Some [c]] \<rparr> # find_all WS_REGEX s (Suc ?j)"
      by (subst find_all.simps) (simp add: ex search_ws Cons)
    have ih: "splice_out s (Suc ?j) (find_all WS_REGEX s (Suc ?j)) = filter ?P (drop (Suc ?j) s)"
      using j less.prems by (intro less.hyps) auto
    have "filter ?P ?r = filter ?P (takeWhile ?P ?r @ c # r')" using split by simp
    also have "\<dots> = takeWhile ?P ?r @ filter ?P r'"
    proof -
      have "\<forall>x\<in>set (takeWhile ?P ?r). ?P x" by (auto dest: set_takeWhileD)
      then have "filter ?P (takeWhile ?P ?r) = takeWhile ?P ?r" by (simp only: filter_id_conv)
      with wsc show ?thesis by simp
    qed
    finally have f: "filter ?P ?r = takeWhile ?P ?r @ filter ?P r'" .
    show ?thesis
      unfolding fa using ih by (simp add: tk dj f)
  qed
qed

lemma replace_all_ws: "replace_all WS_REGEX s = filter (\<lambda>c. \<not> isWhiteSpace c) s"
  using strip_ws_from[of 0 s] by (simp add: replace_all_def)

lemma filter_dropWhile_ws:
  "filter (\<lambda>c. \<not> isWhiteSpace c) (dropWhile isWhiteSpace s) = filter (\<lambda>c. \<not> isWhiteSpace c) s"
  by (induction s) simp_all

lemma filter_trim: "filter (\<lambda>c. \<not> isWhiteSpace c) (trim s) = filter (\<lambda>c. \<not> isWhiteSpace c) s"
proof -
  have "filter (\<lambda>c. \<not> isWhiteSpace c) (trim s)
        = rev (filter (\<lambda>c. \<not> isWhiteSpace c) (dropWhile isWhiteSpace (rev (dropWhile isWhiteSpace s))))"
    by (simp add: trim_def rev_filter)
  also have "\<dots> = rev (filter (\<lambda>c. \<not> isWhiteSpace c) (rev (dropWhile isWhiteSpace s)))"
    by (simp only: filter_dropWhile_ws)
  also have "\<dots> = filter (\<lambda>c. \<not> isWhiteSpace c) (dropWhile isWhiteSpace s)"
    by (simp add: rev_filter)
  finally show ?thesis by (simp add: filter_dropWhile_ws)
qed

lemma pending_decoding:
  "pending_part N requestId toolAttr actionAttr paramsB64 =
     (case atob (filter (\<lambda>c. \<not> isWhiteSpace c) paramsB64) of
        None \<Rightarrow> []
      | Some decoded \<Rightarrow>
          (case JSON_parse decoded of
             None \<Rightarrow> []
           | Some p \<Rightarrow>
               [\<lparr> ptype = ''pending'',
                  content = stringify N (JObj [(S ''request_id'', JStr requestId), (S ''tool'', JStr toolAttr),
                                               (S ''action'', JStr actionAttr), (S ''params'', p)]),
                  isStreaming = None \<rparr>]))"
  by (simp add: pending_part_def replace_all_ws filter_trim)

section \<open>A buffer longer than the limit\<close>

text \<open>
  Past \<open>MAX_CONTENT_LENGTH\<close> the tokenizer works on the first \<open>MAX_CONTENT_LENGTH\<close>
  characters. The consumer cuts the response at \<open>MAX_RESPONSE_LENGTH\<close>, which is larger, and
  appends its marker there.
\<close>

lemma trim_take_nonblank: "trim (take n s) \<noteq> [] \<Longrightarrow> trim s \<noteq> []"
  unfolding trim_eq_Nil by (meson in_set_takeD)

lemma parse_over_cap:
  assumes "MAX_CONTENT_LENGTH < length s" and "trim (take MAX_CONTENT_LENGTH s) \<noteq> []"
  shows "parseMessageContent N g s = parseMessageContent N g (take MAX_CONTENT_LENGTH s)"
proof -
  from assms(2) have t: "trim s \<noteq> []" by (rule trim_take_nonblank)
  then have s: "s \<noteq> []" by (auto simp: trim_Nil)
  from assms(2) have s': "take MAX_CONTENT_LENGTH s \<noteq> []" using trim_Nil by fastforce
  have l: "\<not> MAX_CONTENT_LENGTH < length (take MAX_CONTENT_LENGTH s)" by simp
  show ?thesis
    unfolding parseMessageContent_def[of N g s] parseMessageContent_def[of N g "take MAX_CONTENT_LENGTH s"]
    using assms t s s' l by (simp del: length_take)
qed

lemma consumer_cut:
  assumes "MAX_RESPONSE_LENGTH < length s"
  shows "fst (accumulate [] s) = take MAX_RESPONSE_LENGTH s @ truncation_marker"
    and "take MAX_CONTENT_LENGTH (fst (accumulate [] s)) = take MAX_CONTENT_LENGTH s"
    and "MAX_CONTENT_LENGTH < length (fst (accumulate [] s))"
  using assms by (simp_all add: accumulate_def MAX_RESPONSE_LENGTH_def MAX_CONTENT_LENGTH_def min_def)

section \<open>Where each segment comes from\<close>

text \<open>
  The loop of \<open>parseMessageContent\<close> once more, with one addition: next to every segment
  it records where the segment comes from, the span of the buffer from \<open>lastIndex\<close> to
  \<open>match.index\<close> for the text before a match, and from \<open>match.index\<close> to
  \<open>tagRegex.lastIndex\<close> for what the match pushes. Without the spans it is the loop
  itself (\<open>parse_loop_erase\<close>, \<open>parse_erase\<close>).
\<close>

type_synonym located = "part \<times> nat \<times> nat"

definition located_text_before :: "ustring \<Rightarrow> nat \<Rightarrow> nat \<Rightarrow> located list" where
  "located_text_before s lastIndex i = map (\<lambda>p. (p, lastIndex, i)) (text_before s lastIndex i)"

function parse_loop_spans :: "(ustring \<Rightarrow> ustring) \<Rightarrow> globals \<Rightarrow> ustring \<Rightarrow> nat \<Rightarrow> nat \<Rightarrow> nat
    \<Rightarrow> located list \<Rightarrow> (js_error + located list \<times> nat) \<times> globals" where
  "parse_loop_spans N g s reLastIndex lastIndex iterations parts =
     (case exec_from TAG_REGEX s reLastIndex of
        None \<Rightarrow> (Inr (parts, lastIndex), g)
      | Some mt \<Rightarrow>
          if MAX_ITERATIONS < Suc iterations then (Inr (parts, lastIndex), g)
          else if index mt = lastIndex \<and> length (match0 mt) = 0 then
            parse_loop_spans N g s (mend mt) (Suc lastIndex) (Suc iterations) parts
          else
            (case process_match N g mt of
               (Inl err, g') \<Rightarrow> (Inl err, g')
             | (Inr new, g') \<Rightarrow>
                 parse_loop_spans N g' s (mend mt) (mend mt) (Suc iterations)
                   (parts @ located_text_before s lastIndex (index mt)
                          @ map (\<lambda>p. (p, index mt, mend mt)) new)))"
  by pat_completeness auto
termination
  by (relation "measure (\<lambda>(N, g, s, reLastIndex, lastIndex, iterations, parts). Suc MAX_ITERATIONS - iterations)")
     auto

declare parse_loop_spans.simps [simp del]

text \<open>
  The whole function with spans: the remaining text has the span from \<open>lastIndex\<close> to the
  end of the buffer, the empty text of a blank buffer has the empty span, and the clean-up
  keeps the span of a segment.
\<close>

definition parse_spans :: "(ustring \<Rightarrow> ustring) \<Rightarrow> globals \<Rightarrow> ustring \<Rightarrow> (js_error + located list) \<times> globals" where
  "parse_spans N g s =
     (if s = [] \<or> length (trim s) = 0 then
        (Inr [(\<lparr> ptype = ''text'', content = [], isStreaming = None \<rparr>, 0, 0)], g)
      else
        (case parse_loop_spans N g (if MAX_CONTENT_LENGTH < length s then take MAX_CONTENT_LENGTH s else s) 0 0 0 [] of
           (Inl err, g') \<Rightarrow> (Inl err, g')
         | (Inr (parts, lastIndex), g') \<Rightarrow>
             (Inr (filter (\<lambda>x. keep_part (fst x)) (map (\<lambda>x. (clean_part (fst x), snd x))
                (parts @ located_text_before (if MAX_CONTENT_LENGTH < length s then take MAX_CONTENT_LENGTH s else s)
                           lastIndex
                           (length (if MAX_CONTENT_LENGTH < length s then take MAX_CONTENT_LENGTH s else s))))),
              g')))"

definition erase :: "(js_error + located list \<times> nat) \<times> globals \<Rightarrow> (js_error + part list \<times> nat) \<times> globals" where
  "erase r = (case r of (Inl err, g) \<Rightarrow> (Inl err, g) | (Inr (ps, li), g) \<Rightarrow> (Inr (map fst ps, li), g))"

lemma erase_simps [simp]:
  "erase (Inl err, g) = (Inl err, g)"
  "erase (Inr (ps, li), g) = (Inr (map fst ps, li), g)"
  by (simp_all add: erase_def)

lemma map_fst_located_text_before [simp]:
  "map fst (located_text_before s a b) = text_before s a b"
  by (simp add: located_text_before_def comp_def)

lemma parse_loop_erase:
  "parse_loop N g s a b c (map fst ps) = erase (parse_loop_spans N g s a b c ps)"
proof (induction N g s a b c ps rule: parse_loop_spans.induct)
  case (1 N g s reLastIndex lastIndex iterations parts)
  show ?case
  proof (cases "exec_from TAG_REGEX s reLastIndex")
    case None
    then show ?thesis
      by (simp add: parse_loop.simps[of N g s reLastIndex] parse_loop_spans.simps[of N g s reLastIndex])
  next
    case (Some mt)
    show ?thesis
    proof (cases "MAX_ITERATIONS < Suc iterations")
      case True
      with Some show ?thesis
        by (simp add: parse_loop.simps[of N g s reLastIndex] parse_loop_spans.simps[of N g s reLastIndex])
    next
      case False
      note it = this
      show ?thesis
      proof (cases "index mt = lastIndex \<and> length (match0 mt) = 0")
        case True
        from "1.IH"(1)[OF Some it True] show ?thesis using Some it True
          by (simp add: parse_loop.simps[of N g s reLastIndex] parse_loop_spans.simps[of N g s reLastIndex])
      next
        case False
        obtain r g' where pm: "process_match N g mt = (r, g')" by (cases "process_match N g mt")
        show ?thesis
        proof (cases r)
          case (Inl err)
          with Some it False pm show ?thesis
            by (auto simp add: parse_loop.simps[of N g s reLastIndex] parse_loop_spans.simps[of N g s reLastIndex])
        next
          case (Inr new)
          from "1.IH"(2)[OF Some it False pm[symmetric, unfolded Inr] refl]
          show ?thesis using Some it False pm Inr
            by (auto simp add: parse_loop.simps[of N g s reLastIndex] parse_loop_spans.simps[of N g s reLastIndex] comp_def)
        qed
      qed
    qed
  qed
qed

lemma parse_erase:
  "fst (parseMessageContent N g s) = map_sum id (map fst) (fst (parse_spans N g s))"
proof -
  let ?s = "if MAX_CONTENT_LENGTH < length s then take MAX_CONTENT_LENGTH s else s"
  have e: "parse_loop N g ?s 0 0 0 [] = erase (parse_loop_spans N g ?s 0 0 0 [])"
    using parse_loop_erase[of N g ?s 0 0 0 "[]"] by simp
  have f: "map fst (filter (\<lambda>x. keep_part (fst x)) (map (\<lambda>x. (clean_part (fst x), snd x)) xs))
           = filter keep_part (map clean_part (map fst xs))" for xs :: "located list"
    by (induction xs) simp_all
  show ?thesis
    unfolding parseMessageContent_def parse_spans_def e
    by (cases "parse_loop_spans N g ?s 0 0 0 []") (auto simp add: f split: sum.splits)
qed

text \<open>
  What the span from \<open>a\<close> to \<open>b\<close> of the buffer can give before the clean-up: the text between
  \<open>a\<close> and \<open>b\<close>, or what the tag that is matched at \<open>a\<close> and ends at \<open>b\<close> pushes.
\<close>

definition span_parts :: "(ustring \<Rightarrow> ustring) \<Rightarrow> ustring \<Rightarrow> nat \<Rightarrow> nat \<Rightarrow> part list" where
  "span_parts N s a b =
     \<lparr> ptype = ''text'', content = slice s a b, isStreaming = None \<rparr>
     # (case exec_from TAG_REGEX s a of
          None \<Rightarrow> []
        | Some mt \<Rightarrow>
            if index mt = a \<and> mend mt = b
            then (case match_value N mt of Inl err \<Rightarrow> [] | Inr new \<Rightarrow> new)
            else [])"

definition span_before :: "located \<Rightarrow> located \<Rightarrow> bool" where
  "span_before u v = (snd (snd u) \<le> fst (snd v))"

definition located_ok :: "(ustring \<Rightarrow> ustring) \<Rightarrow> ustring \<Rightarrow> nat \<Rightarrow> located \<Rightarrow> bool" where
  "located_ok N s L x =
     (fst (snd x) \<le> snd (snd x) \<and> snd (snd x) \<le> L \<and> fst x \<in> set (span_parts N s (fst (snd x)) (snd (snd x))))"

lemma exec_from_at_index:
  assumes "exec_from re s i = Some mt"
  shows "exec_from re s (index mt) = Some mt"
proof -
  from exec_from_bounds[OF assms] have le: "index mt \<le> length s" by simp
  from exec_from_match[OF assms] have
    m: "match_at (pattern re) (ignoreCase re) (ncaptures re) (index mt) (drop (index mt) s) = Some mt" .
  show ?thesis
    using le m by (cases "drop (index mt) s") (simp_all add: exec_from_def)
qed

lemma pending_part_single: "length (pending_part N r t a b) \<le> Suc 0"
  by (simp add: pending_part_def split: option.splits)

lemma pending_value_single: "pending_value N tc = Inr new \<Longrightarrow> length new \<le> Suc 0"
  unfolding pending_value_def
  by (auto simp: pending_part_single split: sum.splits if_splits)

lemma match_value_single:
  assumes "match_value N mt = Inr new"
  shows "length new \<le> Suc 0"
proof -
  from tool_pending_eq[OF initial_globals_ok] obtain g4 where
    tp: "tool_pending N initial_globals (js_or (mgroup mt 2) (mgroup mt 5))
           = (pending_value N (js_or (mgroup mt 2) (mgroup mt 5)), g4)" by blast
  show ?thesis
  proof (cases "js_or (mgroup mt 1) (mgroup mt 4)")
    case None
    with assms show ?thesis by (simp add: match_value_def process_match_def)
  next
    case (Some ty)
    consider (th) "ty = S ''thought'' \<or> ty = S ''think''"
      | (tool) "\<not> (ty = S ''thought'' \<or> ty = S ''think'')" "ty = S ''tool_call'' \<or> ty = S ''tool''"
      | (pend) "\<not> (ty = S ''thought'' \<or> ty = S ''think'')" "\<not> (ty = S ''tool_call'' \<or> ty = S ''tool'')"
               "ty = S ''tool_pending''"
      | (other) "\<not> (ty = S ''thought'' \<or> ty = S ''think'')" "\<not> (ty = S ''tool_call'' \<or> ty = S ''tool'')"
               "ty \<noteq> S ''tool_pending''"
      by blast
    then show ?thesis
    proof cases
      case th
      with assms Some show ?thesis by (auto simp add: match_value_def process_match_def)
    next
      case tool
      with assms Some show ?thesis
        by (auto simp add: match_value_def process_match_def split: sum.splits)
    next
      case pend
      with assms Some tp have "pending_value N (js_or (mgroup mt 2) (mgroup mt 5)) = Inr new"
        by (simp add: match_value_def process_match_def)
      then show ?thesis by (rule pending_value_single)
    next
      case other
      with assms Some show ?thesis
        by (auto simp add: match_value_def process_match_def split: if_splits)
    qed
  qed
qed

definition spans_inv :: "(ustring \<Rightarrow> ustring) \<Rightarrow> ustring \<Rightarrow> nat \<Rightarrow> located list \<Rightarrow> bool" where
  "spans_inv N s L ps = (sorted_wrt span_before ps \<and> (\<forall>x\<in>set ps. located_ok N s L x))"

lemma spans_inv_Nil: "spans_inv N s L []"
  by (simp add: spans_inv_def)

lemma spans_inv_append:
  assumes "spans_inv N s L ps" and "L \<le> L'"
    and "sorted_wrt span_before new"
    and "\<forall>x\<in>set new. L \<le> fst (snd x) \<and> located_ok N s L' x"
  shows "spans_inv N s L' (ps @ new)"
proof -
  have "located_ok N s L' x" if "x \<in> set ps" for x
    using assms(1,2) that by (auto simp: spans_inv_def located_ok_def)
  moreover have "span_before x y" if "x \<in> set ps" "y \<in> set new" for x y
  proof -
    from assms(1) that(1) have "snd (snd x) \<le> L" by (auto simp: spans_inv_def located_ok_def)
    moreover from assms(4) that(2) have "L \<le> fst (snd y)" by auto
    ultimately show ?thesis by (simp add: span_before_def)
  qed
  ultimately show ?thesis
    using assms(1,3,4) by (auto simp: spans_inv_def sorted_wrt_append)
qed

lemma span_parts_text:
  "\<lparr> ptype = ''text'', content = slice s a b, isStreaming = None \<rparr> \<in> set (span_parts N s a b)"
  unfolding span_parts_def by (rule list.set_intros(1))

lemma span_parts_tag:
  "exec_from TAG_REGEX s a = Some mt \<Longrightarrow> index mt = a \<Longrightarrow> mend mt = b \<Longrightarrow> match_value N mt = Inr new
     \<Longrightarrow> p \<in> set new \<Longrightarrow> p \<in> set (span_parts N s a b)"
  unfolding span_parts_def by (rule list.set_intros(2)) simp

lemma text_located:
  assumes "a \<le> b" "b \<le> L"
  shows "\<forall>x\<in>set (located_text_before s a b). a \<le> fst (snd x) \<and> located_ok N s L x"
proof (cases "trim (slice s a b) = []")
  case True
  then show ?thesis by (simp add: located_text_before_def text_before_def)
next
  case False
  then show ?thesis
    using assms by (simp add: located_text_before_def text_before_def located_ok_def span_parts_text)
qed

lemma step_inv:
  assumes inv: "spans_inv N s L ps"
    and le: "L \<le> index mt" "index mt \<le> mend mt"
    and ex: "exec_from TAG_REGEX s (index mt) = Some mt"
    and mv: "match_value N mt = Inr new"
  shows "spans_inv N s (mend mt) (ps @ located_text_before s L (index mt) @ map (\<lambda>p. (p, index mt, mend mt)) new)"
proof -
  let ?tb = "located_text_before s L (index mt)" and ?tg = "map (\<lambda>p. (p, index mt, mend mt)) new"
  have l: "L \<le> mend mt" using le by simp
  have tb: "\<forall>x\<in>set ?tb. L \<le> fst (snd x) \<and> located_ok N s (mend mt) x"
    by (rule text_located[OF le])
  have tg: "\<forall>x\<in>set ?tg. L \<le> fst (snd x) \<and> located_ok N s (mend mt) x"
    using le span_parts_tag[OF ex refl refl mv] by (auto simp: located_ok_def)
  from tb tg have a: "\<forall>x\<in>set (?tb @ ?tg). L \<le> fst (snd x) \<and> located_ok N s (mend mt) x" by auto
  have s1: "sorted_wrt span_before ?tb"
    by (simp add: located_text_before_def text_before_def)
  from match_value_single[OF mv] have s2: "sorted_wrt span_before ?tg"
    by (cases new) simp_all
  have "span_before x y" if "x \<in> set ?tb" "y \<in> set ?tg" for x y
    using that by (auto simp: located_text_before_def text_before_def span_before_def split: if_splits)
  with s1 s2 have s: "sorted_wrt span_before (?tb @ ?tg)" by (auto simp: sorted_wrt_append)
  from spans_inv_append[OF inv l s a] show ?thesis by simp
qed

lemma loop_spans_inv:
  "globals_ok g \<Longrightarrow> lastIndex \<le> reLastIndex \<Longrightarrow> lastIndex \<le> length s \<Longrightarrow>
   spans_inv N s lastIndex ps \<Longrightarrow>
   parse_loop_spans N g s reLastIndex lastIndex iterations ps = (Inr (ps', li), g') \<Longrightarrow>
   spans_inv N s li ps' \<and> li \<le> length s"
proof (induction N g s reLastIndex lastIndex iterations ps rule: parse_loop_spans.induct)
  case (1 N g s reLastIndex lastIndex iterations parts)
  note ok = "1.prems"(1) and le = "1.prems"(2) and ls = "1.prems"(3) and inv = "1.prems"(4)
    and run = "1.prems"(5)
  show ?case
  proof (cases "exec_from TAG_REGEX s reLastIndex")
    case None
    with run inv ls show ?thesis by (simp add: parse_loop_spans.simps[of N g s reLastIndex])
  next
    case (Some mt)
    note b = exec_from_bounds[OF Some] and lt = tag_exec(1)[OF Some]
    show ?thesis
    proof (cases "MAX_ITERATIONS < Suc iterations")
      case True
      with Some run inv ls show ?thesis by (simp add: parse_loop_spans.simps[of N g s reLastIndex])
    next
      case False
      note it = this
      show ?thesis
      proof (cases "index mt = lastIndex \<and> length (match0 mt) = 0")
        case True
        from Some it True run have
          r: "parse_loop_spans N g s (mend mt) (Suc lastIndex) (Suc iterations) parts = (Inr (ps', li), g')"
          by (simp add: parse_loop_spans.simps[of N g s reLastIndex])
        have l1: "Suc lastIndex \<le> mend mt" using True lt by simp
        have l2: "Suc lastIndex \<le> length s" using l1 b by simp
        have inv': "spans_inv N s (Suc lastIndex) parts"
          using spans_inv_append[OF inv, of "Suc lastIndex" "[]"] by simp
        from "1.IH"(1)[OF Some it True ok l1 l2 inv' r] show ?thesis .
      next
        case False
        from process_match_eq[OF ok] obtain y where
          y: "process_match N g mt = (match_value N mt, y)" "globals_ok y" by blast
        show ?thesis
        proof (cases "match_value N mt")
          case (Inl err)
          with Some it False y run show ?thesis
            by (auto simp add: parse_loop_spans.simps[of N g s reLastIndex])
        next
          case (Inr new)
          let ?ps = "parts @ located_text_before s lastIndex (index mt) @ map (\<lambda>p. (p, index mt, mend mt)) new"
          from Some it False y Inr run have
            r: "parse_loop_spans N y s (mend mt) (mend mt) (Suc iterations) ?ps = (Inr (ps', li), g')"
            by (auto simp add: parse_loop_spans.simps[of N g s reLastIndex])
          have l0: "lastIndex \<le> index mt" using le b by simp
          have l1: "index mt \<le> mend mt" using b by simp
          have l2: "mend mt \<le> length s" using b by simp
          have inv': "spans_inv N s (mend mt) ?ps"
            by (rule step_inv[OF inv l0 l1 exec_from_at_index[OF Some] Inr])
          from "1.IH"(2)[OF Some it False y(1)[symmetric] Inr y(2) order_refl l2 inv' r] show ?thesis .
        qed
      qed
    qed
  qed
qed

lemma splice_out_subset: "set (splice_out s p ms) \<subseteq> set s"
proof (induction ms arbitrary: p)
  case Nil
  show ?case using set_drop_subset[of p s] by simp
next
  case (Cons mt ms)
  have "set (slice s p (index mt)) \<subseteq> set s"
    unfolding slice_def using set_take_subset[of "index mt - p" "drop p s"] set_drop_subset[of p s] by blast
  with Cons.IH show ?case by auto
qed

lemma replace_all_subset: "set (replace_all re s) \<subseteq> set s"
  unfolding replace_all_def by (rule splice_out_subset)

lemma clean_text_blank:
  assumes "trim s = []"
  shows "clean_text s = []"
proof -
  from assms have w: "\<forall>c\<in>set s. isWhiteSpace c" by (simp add: trim_eq_Nil)
  have "set (replace_all EMPTY_BLOCK_REGEX (replace_all RAW_JSON_REGEX (replace_all TOOL_HEADER_REGEX s))) \<subseteq> set s"
    using replace_all_subset by (meson subset_trans)
  with w show ?thesis unfolding clean_text_def trim_eq_Nil by blast
qed

text \<open>
  The segments are in the order of the buffer when each has a span of the buffer it comes
  from, and every span ends where the next one starts or before.
\<close>

definition source_order :: "(ustring \<Rightarrow> ustring) \<Rightarrow> ustring \<Rightarrow> part list \<Rightarrow> (nat \<times> nat) list \<Rightarrow> bool" where
  "source_order N s segs spans =
     (list_all2 (\<lambda>p sp. fst sp \<le> snd sp \<and> snd sp \<le> length s
                  \<and> p \<in> set (map clean_part (span_parts N s (fst sp) (snd sp)))) segs spans
      \<and> sorted_wrt (\<lambda>u v. snd u \<le> fst v) spans)"

definition segment_spans :: "(ustring \<Rightarrow> ustring) \<Rightarrow> globals \<Rightarrow> ustring \<Rightarrow> (nat \<times> nat) list" where
  "segment_spans N g s = (case fst (parse_spans N g s) of Inl err \<Rightarrow> [] | Inr xs \<Rightarrow> map snd xs)"

lemma list_all2_fst_snd:
  "(\<forall>x\<in>set xs. P (fst x) (snd x)) \<Longrightarrow> list_all2 P (map fst xs) (map snd xs)"
  by (induction xs) simp_all

lemma spans_inv_source_order:
  assumes "spans_inv N s (length s) ps"
  shows "source_order N s (map fst (filter (\<lambda>x. keep_part (fst x)) (map (\<lambda>x. (clean_part (fst x), snd x)) ps)))
           (map snd (filter (\<lambda>x. keep_part (fst x)) (map (\<lambda>x. (clean_part (fst x), snd x)) ps)))"
proof -
  let ?xs = "filter (\<lambda>x. keep_part (fst x)) (map (\<lambda>x. (clean_part (fst x), snd x)) ps)"
  from assms have ok: "\<forall>x\<in>set ps. located_ok N s (length s) x" and so: "sorted_wrt span_before ps"
    by (simp_all add: spans_inv_def)
  have 1: "\<forall>x\<in>set ?xs. fst (snd x) \<le> snd (snd x) \<and> snd (snd x) \<le> length s
             \<and> fst x \<in> set (map clean_part (span_parts N s (fst (snd x)) (snd (snd x))))"
    using ok by (auto simp: located_ok_def)
  have sb: "span_before = (\<lambda>u v. snd (snd u) \<le> fst (snd v))"
    by (rule ext, rule ext) (simp add: span_before_def)
  have "sorted_wrt span_before (map (\<lambda>x. (clean_part (fst x), snd x)) ps)"
    using so by (simp add: sorted_wrt_map sb)
  then have "sorted_wrt span_before ?xs" by (rule sorted_wrt_filter)
  then have 2: "sorted_wrt (\<lambda>u v. snd u \<le> fst v) (map snd ?xs)"
    by (simp add: sorted_wrt_map sb)
  have 3: "list_all2 (\<lambda>p sp. fst sp \<le> snd sp \<and> snd sp \<le> length s
                  \<and> p \<in> set (map clean_part (span_parts N s (fst sp) (snd sp)))) (map fst ?xs) (map snd ?xs)"
    by (rule list_all2_fst_snd) (use 1 in blast)
  from 2 3 show ?thesis by (simp add: source_order_def)
qed

lemma parse_spans_source_order:
  assumes ok: "globals_ok g" and r: "fst (parse_spans N g s) = Inr xs"
  shows "source_order N (take MAX_CONTENT_LENGTH s) (map fst xs) (map snd xs)"
proof (cases "s = [] \<or> length (trim s) = 0")
  case True
  then have xs: "xs = [(\<lparr> ptype = ''text'', content = [], isStreaming = None \<rparr>, 0, 0)]"
    using r by (auto simp: parse_spans_def)
  have c: "clean_part \<lparr> ptype = ''text'', content = slice (take MAX_CONTENT_LENGTH s) 0 0, isStreaming = None \<rparr>
          = \<lparr> ptype = ''text'', content = [], isStreaming = None \<rparr>"
    by (simp add: clean_part_def slice_def clean_text_blank trim_Nil)
  have "clean_part \<lparr> ptype = ''text'', content = slice (take MAX_CONTENT_LENGTH s) 0 0, isStreaming = None \<rparr>
          \<in> clean_part ` set (span_parts N (take MAX_CONTENT_LENGTH s) 0 0)"
    by (rule imageI[OF span_parts_text])
  then have "\<lparr> ptype = ''text'', content = [], isStreaming = None \<rparr>
          \<in> set (map clean_part (span_parts N (take MAX_CONTENT_LENGTH s) 0 0))"
    unfolding c by simp
  then show ?thesis unfolding xs by (simp add: source_order_def)
next
  case False
  let ?s = "take MAX_CONTENT_LENGTH s"
  have cut: "(if MAX_CONTENT_LENGTH < length s then take MAX_CONTENT_LENGTH s else s) = ?s" by simp
  obtain res g' where pl: "parse_loop_spans N g ?s 0 0 0 [] = (res, g')"
    by (cases "parse_loop_spans N g ?s 0 0 0 []")
  have ps: "parse_spans N g s =
      (case parse_loop_spans N g ?s 0 0 0 [] of
         (Inl err, g') \<Rightarrow> (Inl err, g')
       | (Inr (parts, lastIndex), g') \<Rightarrow>
           (Inr (filter (\<lambda>x. keep_part (fst x)) (map (\<lambda>x. (clean_part (fst x), snd x))
              (parts @ located_text_before ?s lastIndex (length ?s)))), g'))"
    unfolding parse_spans_def cut using False by (simp only: if_False)
  from r obtain ps li where res: "res = Inr (ps, li)"
    and xs: "xs = filter (\<lambda>x. keep_part (fst x)) (map (\<lambda>x. (clean_part (fst x), snd x))
                    (ps @ located_text_before ?s li (length ?s)))"
    unfolding ps pl by (cases res) auto
  from loop_spans_inv[OF ok _ _ spans_inv_Nil pl[unfolded res]] have
    inv: "spans_inv N ?s li ps" and li: "li \<le> length ?s" by simp_all
  have "sorted_wrt span_before (located_text_before ?s li (length ?s))"
    by (simp add: located_text_before_def text_before_def)
  from spans_inv_append[OF inv li this text_located[OF li order_refl]]
  have "spans_inv N ?s (length ?s) (ps @ located_text_before ?s li (length ?s))" .
  from spans_inv_source_order[OF this] show ?thesis unfolding xs .
qed

lemma parse_spans_eval:
  assumes "s \<noteq> []" "trim s \<noteq> []" "length s \<le> MAX_CONTENT_LENGTH"
    and "fst (parse_loop_spans N g s 0 0 0 []) = Inr (parts, li)"
    and "located_text_before s li (length s) = tb"
    and "filter (\<lambda>x. keep_part (fst x)) (map (\<lambda>x. (clean_part (fst x), snd x)) (parts @ tb)) = out"
  shows "fst (parse_spans N g s) = Inr out"
proof -
  obtain r g' where pl: "parse_loop_spans N g s 0 0 0 [] = (r, g')"
    by (cases "parse_loop_spans N g s 0 0 0 []")
  with assms(4) have r: "r = Inr (parts, li)" by simp
  from assms(1,2,3) have c: "\<not> (s = [] \<or> length (trim s) = 0)" "\<not> MAX_CONTENT_LENGTH < length s"
    by auto
  show ?thesis
    unfolding parse_spans_def using c pl r assms(5,6) by simp
qed

section \<open>Runs on concrete buffers\<close>

text \<open>Text, a closed thought and text again.\<close>

lemma hello_parse:
  "fst (parseMessageContent id initial_globals (S ''Hello <thought>thinking...</thought> world'')) =
     Inr [\<lparr> ptype = ''text'', content = S ''Hello'', isStreaming = None \<rparr>,
          \<lparr> ptype = ''thought'', content = S ''thinking...'', isStreaming = Some False \<rparr>,
          \<lparr> ptype = ''text'', content = S ''world'', isStreaming = None \<rparr>]"
  apply (rule parse_eval)
       apply (simp add: S_def)
      apply (simp add: S_def trim_def isWhiteSpace_def)
     apply (simp add: S_def MAX_CONTENT_LENGTH_def)
    apply (simp add: ev cong: ev_cong)
   apply (simp add: ev cong: ev_cong)
  apply (simp add: ev cong: ev_cong)
  done

text \<open>The pending tag of the specification, and \<open>JSON.parse\<close> of the segment it gives.\<close>

lemma pending_example:
  "fst (parseMessageContent N initial_globals
          (S ''<tool_pending request_id=\"r1\" tool=\"file\" action=\"write\" params_b64=\"eyJhIjoxfQ==\" />'')) =
     Inr [\<lparr> ptype = ''pending'',
            content = S ''{\"request_id\":\"r1\",\"tool\":\"file\",\"action\":\"write\",\"params\":{\"a\":1}}'',
            isStreaming = None \<rparr>]"
  apply (rule parse_eval)
       apply (simp add: S_def)
      apply (simp add: S_def trim_def isWhiteSpace_def)
     apply (simp add: S_def MAX_CONTENT_LENGTH_def)
    apply (simp add: ev cong: ev_cong)
   apply (simp add: ev cong: ev_cong)
  apply (simp add: ev cong: ev_cong)
  done

lemma pending_example_decoded:
  "decode_pending (S ''{\"request_id\":\"r1\",\"tool\":\"file\",\"action\":\"write\",\"params\":{\"a\":1}}'') =
     Some \<lparr> request_id = S ''r1'', tool = S ''file'', action = S ''write'',
            params = JObj [(S ''a'', JNum (S ''1''))] \<rparr>"
  by (simp add: decode_pending_def ev)




text \<open>The same tag with a line feed, and with a space, inside the value of \<open>params_b64\<close>.\<close>

lemma pending_line_break:
  "fst (parseMessageContent N initial_globals
          (S ''<tool_pending request_id=\"r1\" tool=\"file\" action=\"write\" params_b64=\"eyJh'' @ [10]
           @ S ''IjoxfQ==\" />'')) = Inr []"
  apply (rule parse_eval)
       apply (simp add: S_def)
      apply (simp add: S_def trim_def isWhiteSpace_def)
     apply (simp add: S_def MAX_CONTENT_LENGTH_def)
    apply (simp add: ev cong: ev_cong)
   apply (simp add: ev cong: ev_cong)
  apply (simp add: ev cong: ev_cong)
  done

lemma pending_space:
  "fst (parseMessageContent N initial_globals
          (S ''<tool_pending request_id=\"r1\" tool=\"file\" action=\"write\" params_b64=\"eyJh IjoxfQ==\" />'')) =
     Inr [\<lparr> ptype = ''pending'',
            content = S ''{\"request_id\":\"r1\",\"tool\":\"file\",\"action\":\"write\",\"params\":{\"a\":1}}'',
            isStreaming = None \<rparr>]"
  apply (rule parse_eval)
       apply (simp add: S_def)
      apply (simp add: S_def trim_def isWhiteSpace_def)
     apply (simp add: S_def MAX_CONTENT_LENGTH_def)
    apply (simp add: ev cong: ev_cong)
   apply (simp add: ev cong: ev_cong)
  apply (simp add: ev cong: ev_cong)
  done

text \<open>The spans of the segments of \<open>Hello <thought>thinking...</thought> world\<close>.\<close>

lemma hello_spans:
  "fst (parse_spans id initial_globals (S ''Hello <thought>thinking...</thought> world'')) =
     Inr [(\<lparr> ptype = ''text'', content = S ''Hello'', isStreaming = None \<rparr>, 0, 6),
          (\<lparr> ptype = ''thought'', content = S ''thinking...'', isStreaming = Some False \<rparr>, 6, 36),
          (\<lparr> ptype = ''text'', content = S ''world'', isStreaming = None \<rparr>, 36, 42)]"
  apply (rule parse_spans_eval)
       apply (simp add: S_def)
      apply (simp add: S_def trim_def isWhiteSpace_def)
     apply (simp add: S_def MAX_CONTENT_LENGTH_def)
    apply (simp add: ev parse_loop_spans.simps located_text_before_def cong: ev_cong)
   apply (simp add: ev located_text_before_def cong: ev_cong)
  apply (simp add: ev cong: ev_cong)
  done

section \<open>The claims\<close>

subsection \<open>Determinism\<close>

text \<open>
  C1. The tokenizer is deterministic: two invocations of \<open>parseMessageContent\<close> on the same
  string return the same segments, or throw the same error, whatever calls were made before
  each of them. The module keeps a cache of attribute patterns between calls; the result
  does not depend on it.
\<close>

theorem parse_deterministic:
  "fst (parseMessageContent N (calls N before1) s) = fst (parseMessageContent N (calls N before2) s)"
  by (rule parse_indep[OF calls_ok calls_ok])

subsection \<open>Order of the segments\<close>

text \<open>
  C2. The segments appear in the order in which the text runs and the tags they come from
  appear in the buffer. Whenever the tokenizer returns, after any calls made before, every
  segment has a span of the buffer (cut at \<open>MAX_CONTENT_LENGTH\<close>): the segment is the
  clean-up of the text of its span, or of what the tag matched on exactly this span
  pushes; the spans do not overlap and follow each other in the order of the segments.
\<close>

theorem segments_in_source_order:
  assumes "fst (parseMessageContent N (calls N before) s) = Inr segs"
  shows "source_order N (take MAX_CONTENT_LENGTH s) segs (segment_spans N (calls N before) s)"
proof -
  from assms parse_erase[of N "calls N before" s] obtain xs where
    xs: "fst (parse_spans N (calls N before) s) = Inr xs" and segs: "segs = map fst xs"
    by (cases "fst (parse_spans N (calls N before) s)") auto
  from parse_spans_source_order[OF calls_ok xs] show ?thesis
    by (simp add: segs segment_spans_def xs)
qed

theorem segments_in_source_order_witness:
  "fst (parseMessageContent id (calls id []) (S ''Hello <thought>thinking...</thought> world'')) =
     Inr [\<lparr> ptype = ''text'', content = S ''Hello'', isStreaming = None \<rparr>,
          \<lparr> ptype = ''thought'', content = S ''thinking...'', isStreaming = Some False \<rparr>,
          \<lparr> ptype = ''text'', content = S ''world'', isStreaming = None \<rparr>]
   \<and> segment_spans id (calls id []) (S ''Hello <thought>thinking...</thought> world'') = [(0, 6), (6, 36), (36, 42)]
   \<and> source_order id (take MAX_CONTENT_LENGTH (S ''Hello <thought>thinking...</thought> world''))
         [\<lparr> ptype = ''text'', content = S ''Hello'', isStreaming = None \<rparr>,
          \<lparr> ptype = ''thought'', content = S ''thinking...'', isStreaming = Some False \<rparr>,
          \<lparr> ptype = ''text'', content = S ''world'', isStreaming = None \<rparr>]
         [(0, 6), (6, 36), (36, 42)]"
proof -
  have g: "calls id [] = initial_globals" by (simp add: calls_def)
  have h: "fst (parseMessageContent id (calls id []) (S ''Hello <thought>thinking...</thought> world'')) =
     Inr [\<lparr> ptype = ''text'', content = S ''Hello'', isStreaming = None \<rparr>,
          \<lparr> ptype = ''thought'', content = S ''thinking...'', isStreaming = Some False \<rparr>,
          \<lparr> ptype = ''text'', content = S ''world'', isStreaming = None \<rparr>]"
    unfolding g by (rule hello_parse)
  have sp: "segment_spans id (calls id []) (S ''Hello <thought>thinking...</thought> world'')
              = [(0, 6), (6, 36), (36, 42)]"
    unfolding g segment_spans_def hello_spans by simp
  from segments_in_source_order[OF h] h sp show ?thesis by simp
qed

subsection \<open>A thought that is still streaming\<close>




subsection \<open>Arguments of a tool tag\<close>




subsection \<open>A pending tag\<close>

text \<open>
  The tag \<open><tool_pending request_id="r1" tool="file" action="write"
  params_b64="eyJhIjoxfQ==" />\<close> gives exactly one pending segment, after any calls made
  before; its content parses to the pending action with request id \<open>r1\<close>, tool \<open>file\<close>,
  action \<open>write\<close> and params \<open>{"a":1}\<close>. Once \<open>getAttr\<close> has extracted the value of
  \<open>params_b64\<close>, decoding removes its white space, decodes the base64 text and parses
  the result as JSON.
\<close>

lemma pending_tag_decoded:
  "fst (parseMessageContent N (calls N before)
          (S ''<tool_pending request_id=\"r1\" tool=\"file\" action=\"write\" params_b64=\"eyJhIjoxfQ==\" />'')) =
     Inr [\<lparr> ptype = ''pending'',
            content = S ''{\"request_id\":\"r1\",\"tool\":\"file\",\"action\":\"write\",\"params\":{\"a\":1}}'',
            isStreaming = None \<rparr>]
   \<and> decode_pending (S ''{\"request_id\":\"r1\",\"tool\":\"file\",\"action\":\"write\",\"params\":{\"a\":1}}'') =
     Some \<lparr> request_id = S ''r1'', tool = S ''file'', action = S ''write'',
            params = JObj [(S ''a'', JNum (S ''1''))] \<rparr>
   \<and> pending_part N requestId toolAttr actionAttr paramsB64 =
     (case atob (filter (\<lambda>c. \<not> isWhiteSpace c) paramsB64) of
        None \<Rightarrow> []
      | Some decoded \<Rightarrow>
          (case JSON_parse decoded of
             None \<Rightarrow> []
           | Some p \<Rightarrow>
               [\<lparr> ptype = ''pending'',
                  content = stringify N (JObj [(S ''request_id'', JStr requestId), (S ''tool'', JStr toolAttr),
                                               (S ''action'', JStr actionAttr), (S ''params'', p)]),
                  isStreaming = None \<rparr>]))"
proof (intro conjI)
  show "fst (parseMessageContent N (calls N before)
          (S ''<tool_pending request_id=\"r1\" tool=\"file\" action=\"write\" params_b64=\"eyJhIjoxfQ==\" />'')) =
     Inr [\<lparr> ptype = ''pending'',
            content = S ''{\"request_id\":\"r1\",\"tool\":\"file\",\"action\":\"write\",\"params\":{\"a\":1}}'',
            isStreaming = None \<rparr>]"
    using parse_indep[OF calls_ok initial_globals_ok] pending_example by simp
qed (rule pending_example_decoded, rule pending_decoding)

text \<open>
  C5. Decoding is to strip the white space of \<open>params_b64\<close>, decode the base64 text and
  parse the result. The comment in the source says that newlines in the value are
  handled, but \<open>getAttr\<close> extracts the value with \<open>(.*?)\<close>, which does not cross a line
  terminator: when the value holds a line feed, \<open>getAttr\<close> finds no \<open>params_b64\<close> and
  the tag is dropped, after any calls made before. The same value with a space in place
  of the line feed is decoded (\<open>pending_space\<close>).
\<close>

theorem pending_with_line_feed_dropped:
  "fst (parseMessageContent N (calls N before)
          (S ''<tool_pending request_id=\"r1\" tool=\"file\" action=\"write\" params_b64=\"eyJh'' @ [10]
           @ S ''IjoxfQ==\" />'')) = Inr []"
  using parse_indep[OF calls_ok initial_globals_ok] pending_line_break by simp

subsection \<open>Pending tags that cannot be decoded\<close>

text \<open>
  C6. A \<open>tool_pending\<close> tag with a missing required attribute, or whose \<open>params_b64\<close>
  does not decode, is to be dropped without an exception. The tag \<open><tool_pending>\<close>
  misses all four attributes, and so does the tag with attributes that are only white
  space: there \<open>match[2]\<close> is falsy and \<open>match[5]\<close> is \<open>undefined\<close>, so \<open>getAttr\<close> calls
  \<open>match\<close> on \<open>undefined\<close>, outside the \<open>try\<close> block, and the \<open>TypeError\<close> leaves
  \<open>parseMessageContent\<close>, whatever the state of the cache.
\<close>

theorem tool_pending_without_attributes_throws:
  "fst (parseMessageContent N g (S ''<tool_pending>'')) = Inl TypeError"
  apply (rule parse_eval_error)
     apply (simp add: S_def)
    apply (simp add: S_def trim_def isWhiteSpace_def)
   apply (simp add: S_def MAX_CONTENT_LENGTH_def)
  apply (simp add: ev cong: ev_cong split: option.splits)
  done

text \<open>The example of the specification, where only \<open>action\<close> and \<open>params_b64\<close> are missing,
  is dropped as claimed.\<close>

lemma tool_pending_missing_params_dropped:
  "fst (parseMessageContent N initial_globals (S ''<tool_pending request_id=\"r1\" tool=\"file\" />'')) = Inr []"
  apply (rule parse_eval)
       apply (simp add: S_def)
      apply (simp add: S_def trim_def isWhiteSpace_def)
     apply (simp add: S_def MAX_CONTENT_LENGTH_def)
    apply (simp add: ev cong: ev_cong)
   apply (simp add: ev cong: ev_cong)
  apply (simp add: ev cong: ev_cong)
  done

subsection \<open>Truncation\<close>

text \<open>
  The tokenizer cuts a buffer that is too long and logs a warning; it adds nothing to the
  segments: an open thought of a million characters comes back as one thought segment
  that ends where the buffer was cut.
\<close>

theorem long_thought_cut_without_marker:
  "fst (parseMessageContent id initial_globals (S ''<thought>'' @ replicate 1000000 97)) =
     Inr [\<lparr> ptype = ''thought'', content = replicate 999991 97, isStreaming = Some True \<rparr>]"
proof -
  let ?s = "S ''<thought>'' @ replicate 1000000 97"
  have tk: "take MAX_CONTENT_LENGTH ?s = S ''<'' @ S ''thought'' @ S ''>'' @ replicate 999991 97"
    by (simp add: MAX_CONTENT_LENGTH_def S_def)
  have l: "MAX_CONTENT_LENGTH < length ?s" by (simp add: MAX_CONTENT_LENGTH_def S_def)
  have "\<not> isWhiteSpace 60" by (simp add: isWhiteSpace_def)
  from trim_nonblank[OF this] have nb: "trim (take MAX_CONTENT_LENGTH ?s) \<noteq> []"
    unfolding tk by (simp add: S_def)
  have h1: "S ''thought'' = S ''thought'' \<or> S ''thought'' = S ''think''" by simp
  have h2: "open_content (S ''thought'') (replicate 999991 97)"
    by (rule open_content_plain) simp
  have h3: "length (S ''<'' @ S ''thought'' @ S ''>'' @ replicate 999991 (97::nat)) \<le> MAX_CONTENT_LENGTH"
    by (simp add: MAX_CONTENT_LENGTH_def S_def)
  have h4: "S ''<'' @ S ''thought'' @ S ''>'' @ replicate 999991 97
              = [] @ S ''<'' @ S ''thought'' @ S ''>'' @ replicate 999991 97" by simp
  have h5: "60 \<notin> set ([] :: ustring)" by simp
  show ?thesis
    unfolding parse_over_cap[OF l nb] tk
    by (simp add: open_thought_buffer[OF h1 h2 h4 h5 h3] text_before_def slice_def trim_Nil)
qed

text \<open>
  C7. A buffer longer than the maximum is to be truncated at the cap, with a visible
  truncation marker in the segments. \<open>handleSubmit\<close> appends such a marker when it cuts
  a response at \<open>MAX_RESPONSE_LENGTH\<close>, but every message is rendered through the
  tokenizer, whose own limit is lower and which adds no marker: for a buffer longer than
  \<open>MAX_CONTENT_LENGTH\<close> whose first \<open>MAX_CONTENT_LENGTH\<close> characters are not blank, the
  segments are those of these characters alone, and so are the segments of a response
  that \<open>handleSubmit\<close> has cut and marked. The marker is never shown.
\<close>

theorem truncation_without_marker:
  assumes "MAX_CONTENT_LENGTH < length s" and "trim (take MAX_CONTENT_LENGTH s) \<noteq> []"
  shows "parseMessageContent N g s = parseMessageContent N g (take MAX_CONTENT_LENGTH s)
       \<and> (MAX_RESPONSE_LENGTH < length s \<longrightarrow>
            parseMessageContent N g (fst (accumulate [] s)) = parseMessageContent N g (take MAX_CONTENT_LENGTH s))"
proof (intro conjI impI)
  show "parseMessageContent N g s = parseMessageContent N g (take MAX_CONTENT_LENGTH s)"
    using assms by (rule parse_over_cap)
next
  assume a: "MAX_RESPONSE_LENGTH < length s"
  from assms(2) have "trim (take MAX_CONTENT_LENGTH (fst (accumulate [] s))) \<noteq> []"
    unfolding consumer_cut(2)[OF a] .
  from parse_over_cap[OF consumer_cut(3)[OF a] this]
  show "parseMessageContent N g (fst (accumulate [] s)) = parseMessageContent N g (take MAX_CONTENT_LENGTH s)"
    by (simp only: consumer_cut(2)[OF a])
qed

theorem truncation_without_marker_witness:
  "MAX_CONTENT_LENGTH < length (replicate 5000001 (97::nat))
   \<and> trim (take MAX_CONTENT_LENGTH (replicate 5000001 97)) \<noteq> []
   \<and> MAX_RESPONSE_LENGTH < length (replicate 5000001 (97::nat))
   \<and> parseMessageContent id initial_globals (replicate 5000001 97) =
       parseMessageContent id initial_globals (take MAX_CONTENT_LENGTH (replicate 5000001 97))
   \<and> parseMessageContent id initial_globals (fst (accumulate [] (replicate 5000001 97))) =
       parseMessageContent id initial_globals (take MAX_CONTENT_LENGTH (replicate 5000001 97))"
proof -
  have h1: "MAX_CONTENT_LENGTH < length (replicate 5000001 (97::nat))"
    by (simp add: MAX_CONTENT_LENGTH_def)
  have h2: "trim (take MAX_CONTENT_LENGTH (replicate 5000001 97)) \<noteq> []"
    by (simp add: trim_eq_Nil MAX_CONTENT_LENGTH_def isWhiteSpace_def)
  have h3: "MAX_RESPONSE_LENGTH < length (replicate 5000001 (97::nat))"
    by (simp add: MAX_RESPONSE_LENGTH_def)
  from truncation_without_marker[OF h1 h2, of id initial_globals] h1 h2 h3
  show ?thesis by blast
qed

subsection \<open>Approval and denial\<close>

text \<open>
  C8. When the approval or denial request fails, the local status is to stay unresolved.
  Both handlers record the vote before they send the request, and the \<open>catch\<close> block only
  logs and alerts: after a failed request the action is marked approved (or denied), the
  failure is reported by an alert and no follow-up is submitted.
\<close>

theorem approval_failure_keeps_vote:
  "votedActions (handleApproveAction N p (Inl ()) st) (request_id p) = Some approved
   \<and> alerts (handleApproveAction N p (Inl ()) st) = alerts st @ [''Approval failed.'']
   \<and> submitted (handleApproveAction N p (Inl ()) st) = submitted st
   \<and> votedActions (handleDenyAction p (Inl ()) st) (request_id p) = Some denied
   \<and> alerts (handleDenyAction p (Inl ()) st) = alerts st @ [''Denial failed.'']
   \<and> submitted (handleDenyAction p (Inl ()) st) = submitted st"
  by (simp add: handleApproveAction_def handleDenyAction_def)




subsection \<open>Empty text segments\<close>

text \<open>
  C10. No text segment of the result is empty or only white space, for every buffer,
  the empty and the blank ones included. For an empty or blank buffer the first statement
  of \<open>parseMessageContent\<close> returns one text segment with the empty string as content.
\<close>

theorem empty_buffer_yields_empty_text:
  "fst (parseMessageContent id initial_globals []) =
     Inr [\<lparr> ptype = ''text'', content = [], isStreaming = None \<rparr>]"
  by (simp add: parseMessageContent_def)

text \<open>
  C10, as the source has it. For an empty or blank buffer the result is exactly one text
  segment with the empty string as content, and the state of the module is unchanged.
  For every other buffer, every text segment of the result is not empty and is trimmed,
  so it is not white space only.
\<close>

theorem text_segments_not_blank:
  "(trim s = [] \<longrightarrow>
      parseMessageContent N g s = (Inr [\<lparr> ptype = ''text'', content = [], isStreaming = None \<rparr>], g))
   \<and> (trim s \<noteq> [] \<longrightarrow> fst (parseMessageContent N g s) = Inr segs \<longrightarrow> p \<in> set segs \<longrightarrow>
        ptype p = ''text'' \<longrightarrow> content p \<noteq> [] \<and> trim (content p) = content p)"
proof (intro conjI impI)
  assume "trim s = []"
  then show "parseMessageContent N g s = (Inr [\<lparr> ptype = ''text'', content = [], isStreaming = None \<rparr>], g)"
    by (simp add: parseMessageContent_def)
next
  assume a: "trim s \<noteq> []" "fst (parseMessageContent N g s) = Inr segs" "p \<in> set segs" "ptype p = ''text''"
  let ?s = "if MAX_CONTENT_LENGTH < length s then take MAX_CONTENT_LENGTH s else s"
  from a(1) have ne: "\<not> (s = [] \<or> length (trim s) = 0)" by (auto simp: trim_Nil)
  obtain r g' where pl: "parse_loop N g ?s 0 0 0 [] = (r, g')" by (cases "parse_loop N g ?s 0 0 0 []")
  from a(2) ne pl obtain parts li where
    segs: "segs = filter keep_part (map clean_part (parts @ text_before ?s li (length ?s)))"
    unfolding parseMessageContent_def by (auto split: sum.splits)
  from a(3) segs obtain q where q: "p = clean_part q" and k: "keep_part p" by auto
  from a(4) q have "p = q\<lparr> content := clean_text (content q) \<rparr>"
    by (auto simp: clean_part_def split: if_splits)
  then have c: "content p = clean_text (content q)" by simp
  from k a(4) have "content p \<noteq> []" by (simp add: keep_part_def)
  with c show "content p \<noteq> []" "trim (content p) = content p" by (simp_all add: clean_text_trimmed)
qed

theorem text_segments_not_blank_witness:
  "trim [32, 10, 9] = []
   \<and> parseMessageContent id initial_globals [32, 10, 9] =
       (Inr [\<lparr> ptype = ''text'', content = [], isStreaming = None \<rparr>], initial_globals)
   \<and> trim (S ''Hello <thought>thinking...</thought> world'') \<noteq> []
   \<and> fst (parseMessageContent id initial_globals (S ''Hello <thought>thinking...</thought> world'')) =
     Inr [\<lparr> ptype = ''text'', content = S ''Hello'', isStreaming = None \<rparr>,
          \<lparr> ptype = ''thought'', content = S ''thinking...'', isStreaming = Some False \<rparr>,
          \<lparr> ptype = ''text'', content = S ''world'', isStreaming = None \<rparr>]
   \<and> \<lparr> ptype = ''text'', content = S ''Hello'', isStreaming = None \<rparr>
       \<in> set [\<lparr> ptype = ''text'', content = S ''Hello'', isStreaming = None \<rparr>,
          \<lparr> ptype = ''thought'', content = S ''thinking...'', isStreaming = Some False \<rparr>,
          \<lparr> ptype = ''text'', content = S ''world'', isStreaming = None \<rparr>]
   \<and> ptype \<lparr> ptype = ''text'', content = S ''Hello'', isStreaming = None \<rparr> = ''text''
   \<and> content \<lparr> ptype = ''text'', content = S ''Hello'', isStreaming = None \<rparr> \<noteq> []
   \<and> trim (content \<lparr> ptype = ''text'', content = S ''Hello'', isStreaming = None \<rparr>)
       = content \<lparr> ptype = ''text'', content = S ''Hello'', isStreaming = None \<rparr>"
proof -
  have h0: "trim [32, 10, 9] = []" by (simp add: trim_def isWhiteSpace_def)
  have h1: "trim (S ''Hello <thought>thinking...</thought> world'') \<noteq> []"
    by (simp add: S_def trim_def isWhiteSpace_def)
  have h3: "\<lparr> ptype = ''text'', content = S ''Hello'', isStreaming = None \<rparr>
       \<in> set [\<lparr> ptype = ''text'', content = S ''Hello'', isStreaming = None \<rparr>,
          \<lparr> ptype = ''thought'', content = S ''thinking...'', isStreaming = Some False \<rparr>,
          \<lparr> ptype = ''text'', content = S ''world'', isStreaming = None \<rparr>]" by simp
  have h4: "ptype \<lparr> ptype = ''text'', content = S ''Hello'', isStreaming = None \<rparr> = ''text''" by simp
  from text_segments_not_blank[of "[32, 10, 9]" id initial_globals] h0
  have b: "parseMessageContent id initial_globals [32, 10, 9] =
       (Inr [\<lparr> ptype = ''text'', content = [], isStreaming = None \<rparr>], initial_globals)" by blast
  from text_segments_not_blank[of "S ''Hello <thought>thinking...</thought> world''" id initial_globals] h1 hello_parse h3 h4
  have "content \<lparr> ptype = ''text'', content = S ''Hello'', isStreaming = None \<rparr> \<noteq> []
     \<and> trim (content \<lparr> ptype = ''text'', content = S ''Hello'', isStreaming = None \<rparr>)
       = content \<lparr> ptype = ''text'', content = S ''Hello'', isStreaming = None \<rparr>" by blast
  with h0 b h1 hello_parse h3 h4 show ?thesis by blast
qed

end
